theory Spec2Isabelle
  imports Complex_Main
begin

section \<open>Strings as Python sees them\<close>

text \<open>
  A Python \<open>str\<close> is a sequence of code points. A \<open>char\<close> here stands for one code
  point below 256, so every string of the model is a Python string over that range.
  The character classes below are the ones Python's \<open>str.isspace\<close>, \<open>str.strip\<close>,
  \<open>str.splitlines\<close> and the \<open>re\<close> module (\<open>\s\<close>, \<open>\d\<close>, \<open>\w\<close>) use on that range.
\<close>

abbreviation NL :: char where "NL \<equiv> CHR 0x0A"

definition space_chars :: "char list" where
  "space_chars = [CHR 0x09, CHR 0x0A, CHR 0x0B, CHR 0x0C, CHR 0x0D,
                  CHR 0x1C, CHR 0x1D, CHR 0x1E, CHR 0x1F, CHR 0x20, CHR 0x85, CHR 0xA0]"

definition is_space :: "char \<Rightarrow> bool" where
  "is_space c = (c \<in> set space_chars)"

definition is_digit :: "char \<Rightarrow> bool" where
  "is_digit c = (c \<in> set ''0123456789'')"

definition lstrip :: "string \<Rightarrow> string" where
  "lstrip s = dropWhile is_space s"

definition rstrip :: "string \<Rightarrow> string" where
  "rstrip s = rev (dropWhile is_space (rev s))"

definition strip :: "string \<Rightarrow> string" where
  "strip s = rstrip (lstrip s)"

definition starts_with :: "string \<Rightarrow> string \<Rightarrow> bool" where
  "starts_with p s = (take (length p) s = p)"

text \<open>\<open>sub in s\<close> for strings.\<close>

fun contains :: "string \<Rightarrow> string \<Rightarrow> bool" where
  "contains sub [] = (sub = [])"
| "contains sub (c # cs) = (starts_with sub (c # cs) \<or> contains sub cs)"

text \<open>
  \<open>s.replace(old, new)\<close>: the occurrences of \<open>old\<close> are found from the left and do
  not overlap. With an empty \<open>old\<close>, Python puts \<open>new\<close> before every character and at
  the end.
\<close>

function py_replace :: "string \<Rightarrow> string \<Rightarrow> string \<Rightarrow> string" where
  "py_replace old new s =
     (if old = [] then new @ concat (map (\<lambda>c. c # new) s)
      else if starts_with old s then new @ py_replace old new (drop (length old) s)
      else (case s of [] \<Rightarrow> [] | c # cs \<Rightarrow> c # py_replace old new cs))"
  by pat_completeness auto
termination
proof (relation "measure (\<lambda>(old, new, s). length s)")
  fix old new s :: string
  assume "old \<noteq> []" and "starts_with old s"
  then have "s \<noteq> []" and "0 < length old"
    by (auto simp: starts_with_def)
  then show "((old, new, drop (length old) s), old, new, s)
      \<in> measure (\<lambda>(old, new, s). length s)"
    by simp
qed auto

declare py_replace.simps [simp del]

text \<open>
  \<open>s.split(sep, 1)\<close> for a separator that occurs in \<open>s\<close>: the text before the first
  occurrence and the text after it; \<open>None\<close> when \<open>sep\<close> does not occur.
\<close>

fun split_once :: "string \<Rightarrow> string \<Rightarrow> (string \<times> string) option" where
  "split_once sep [] = (if sep = [] then Some ([], []) else None)"
| "split_once sep (c # cs) =
     (if starts_with sep (c # cs) then Some ([], drop (length sep) (c # cs))
      else (case split_once sep cs of None \<Rightarrow> None | Some (h, t) \<Rightarrow> Some (c # h, t)))"

section \<open>The assistant output formatter (app.py, fmt\_money\_blocks)\<close>

text \<open>
  The lookahead \<open>(?=(\d+\.\s))\<close>: a run of at least one digit, a period and a
  whitespace character start here.
\<close>

definition numbered_ahead :: "string \<Rightarrow> bool" where
  "numbered_ahead r =
     (takeWhile is_digit r \<noteq> [] \<and>
      (case dropWhile is_digit r of
         c1 # c2 # _ \<Rightarrow> c1 = CHR ''.'' \<and> is_space c2
       | _ \<Rightarrow> False))"

text \<open>
  Step 1, \<open>re.sub(r'\s*(?<!^)(?=(\d+\.\s))', '\n', s)\<close>. The scan goes from left to
  right. At a position the greedy \<open>\s*\<close> takes the whole whitespace run; giving
  characters back cannot help, since the lookahead needs a digit. \<open>(?<!^)\<close> refuses
  only position 0 of the string (\<open>at0\<close>). A match that consumed whitespace ends right
  before the digits, and the search resumes there, where the empty match is found as
  well (Python 3.7 and later replace an empty match adjacent to a previous non-empty
  one). After an empty match the next match at the same position must be non-empty
  (\<open>adv\<close>), so the scan copies the digit and moves on.
\<close>

function break_before_numbers :: "bool \<Rightarrow> bool \<Rightarrow> string \<Rightarrow> string" where
  "break_before_numbers at0 adv s =
     (if takeWhile is_space s \<noteq> [] \<and> numbered_ahead (dropWhile is_space s)
      then NL # break_before_numbers False False (dropWhile is_space s)
      else if numbered_ahead s \<and> \<not> at0 \<and> \<not> adv
      then NL # break_before_numbers False True s
      else (case s of [] \<Rightarrow> [] | c # cs \<Rightarrow> c # break_before_numbers False False cs))"
  by pat_completeness auto
termination
proof (relation "measure (\<lambda>(at0, adv, s). 2 * length s + (if adv then 0 else 1))")
  fix at0 adv :: bool and s :: string
  assume "takeWhile is_space s \<noteq> [] \<and> numbered_ahead (dropWhile is_space s)"
  then have "0 < length (takeWhile is_space s)" by simp
  moreover have "length s = length (takeWhile is_space s) + length (dropWhile is_space s)"
    by (metis length_append takeWhile_dropWhile_id)
  ultimately have "2 * length (dropWhile is_space s) + 2 \<le> 2 * length s" by arith
  then show "((False, False, dropWhile is_space s), at0, adv, s)
      \<in> measure (\<lambda>(at0, adv, s). 2 * length s + (if adv then 0 else 1))"
    by simp
qed auto

declare break_before_numbers.simps [simp del]

text \<open>Step 2, \<open>re.sub(r'\.\s+', '. ', s)\<close>.\<close>

function space_after_period :: "string \<Rightarrow> string" where
  "space_after_period [] = []"
| "space_after_period (c # cs) =
     (if c = CHR ''.'' \<and> takeWhile is_space cs \<noteq> []
      then CHR ''.'' # CHR '' '' # space_after_period (dropWhile is_space cs)
      else c # space_after_period cs)"
  by pat_completeness auto
termination
  by (relation "measure length") (auto simp: less_Suc_eq_le length_dropWhile_le)

text \<open>Step 5, \<open>re.sub(r'\n{3,}', '\n\n', s)\<close>.\<close>

function squeeze_newlines :: "string \<Rightarrow> string" where
  "squeeze_newlines [] = []"
| "squeeze_newlines (c # cs) =
     (if c = NL \<and> 2 \<le> length (takeWhile (\<lambda>x. x = NL) cs)
      then NL # NL # squeeze_newlines (dropWhile (\<lambda>x. x = NL) cs)
      else c # squeeze_newlines cs)"
  by pat_completeness auto
termination
  by (relation "measure length") (auto simp: less_Suc_eq_le length_dropWhile_le)

text \<open>Step 4: the bullets after the first \<open>Breakdown:\<close>.\<close>

definition bullets_after_breakdown :: "string \<Rightarrow> string" where
  "bullets_after_breakdown s =
     (if contains ''Breakdown:'' s then
        (case split_once ''Breakdown:'' s of
           Some (head, tail) \<Rightarrow>
             head @ ''Breakdown:'' @ py_replace '' - '' (NL # ''   - '') tail
         | None \<Rightarrow> s)
      else s)"

definition fmt_money_blocks :: "string \<Rightarrow> string" where
  "fmt_money_blocks txt =
     (let s = strip txt;
          s = break_before_numbers True False s;
          s = space_after_period s;
          s = py_replace ''3. Breakdown:'' (''3. Breakdown:'' @ [NL]) s;
          s = bullets_after_breakdown s;
          s = squeeze_newlines s
      in s)"

section \<open>The response normalizer (main.py, \_resp\_text)\<close>

text \<open>
  The response of the invocation capability is dynamically typed. The shapes it can
  take are values built from \<open>None\<close>, booleans, numbers, strings, byte strings, lists,
  dictionaries with string keys, and objects, an object being the attributes it
  carries.
\<close>

datatype pyval =
    PNone
  | PBool bool
  | PInt int
  | PStr string
  | PBytes string
  | PList "pyval list"
  | PDict "(string \<times> pyval) list"
  | PObj "(string \<times> pyval) list"

datatype py_error =
    AttributeError
  | IndexError
  | KeyError
  | TypeError
  | RecursionError
  | FileNotFoundError
  | IsADirectoryError
  | PermissionError
  | UnicodeDecodeError
  | JSONDecodeError
  | InvokeError string
  | OpenError string

text \<open>The name of the class of an exception.\<close>

fun error_name :: "py_error \<Rightarrow> string" where
  "error_name AttributeError = ''AttributeError''"
| "error_name IndexError = ''IndexError''"
| "error_name KeyError = ''KeyError''"
| "error_name TypeError = ''TypeError''"
| "error_name RecursionError = ''RecursionError''"
| "error_name FileNotFoundError = ''FileNotFoundError''"
| "error_name IsADirectoryError = ''IsADirectoryError''"
| "error_name PermissionError = ''PermissionError''"
| "error_name UnicodeDecodeError = ''UnicodeDecodeError''"
| "error_name JSONDecodeError = ''JSONDecodeError''"
| "error_name (InvokeError name) = name"
| "error_name (OpenError name) = name"

text \<open>
  What \<open>_resp_text\<close> can return: the result of \<open>strip\<close>, which is a \<open>str\<close> on a
  \<open>str\<close> and a \<open>bytes\<close> on a \<open>bytes\<close>.
\<close>

datatype strval = Str string | Bytes string

text \<open>\<open>bytes.strip()\<close> removes the ASCII whitespace at both ends.\<close>

definition bytes_space :: "char \<Rightarrow> bool" where
  "bytes_space c = (c \<in> set [CHR 0x09, CHR 0x0A, CHR 0x0B, CHR 0x0C, CHR 0x0D, CHR 0x20])"

definition bytes_strip :: "string \<Rightarrow> string" where
  "bytes_strip b = rev (dropWhile bytes_space (rev (dropWhile bytes_space b)))"

text \<open>Truth value of a value, as \<open>and\<close> and \<open>if\<close> test it.\<close>

fun truthy :: "pyval \<Rightarrow> bool" where
  "truthy PNone = False"
| "truthy (PBool b) = b"
| "truthy (PInt i) = (i \<noteq> 0)"
| "truthy (PStr s) = (s \<noteq> [])"
| "truthy (PBytes b) = (b \<noteq> [])"
| "truthy (PList xs) = (xs \<noteq> [])"
| "truthy (PDict kvs) = (kvs \<noteq> [])"
| "truthy (PObj attrs) = True"

text \<open>
  \<open>attr v name\<close> is the attribute \<open>v.name\<close>, and \<open>hasattr(v, name)\<close> is
  \<open>attr v name \<noteq> None\<close>. The function asks for \<open>choices\<close>, \<open>message\<close>, \<open>content\<close>
  and \<open>text\<close> only, which none of the built-in types has.
\<close>

fun attr :: "pyval \<Rightarrow> string \<Rightarrow> pyval option" where
  "attr (PObj attrs) name = map_of attrs name"
| "attr _ name = None"

text \<open>\<open>v[0]\<close>.\<close>

fun index0 :: "pyval \<Rightarrow> py_error + pyval" where
  "index0 (PList []) = Inl IndexError"
| "index0 (PList (x # xs)) = Inr x"
| "index0 (PStr []) = Inl IndexError"
| "index0 (PStr (c # cs)) = Inr (PStr [c])"
| "index0 (PBytes []) = Inl IndexError"
| "index0 (PBytes (c # cs)) = Inr (PInt (of_char c))"
| "index0 (PDict kvs) = Inl KeyError"
| "index0 _ = Inl TypeError"

text \<open>\<open>key in v\<close> for a string \<open>key\<close>.\<close>

fun py_in :: "string \<Rightarrow> pyval \<Rightarrow> py_error + bool" where
  "py_in key (PDict kvs) = Inr (map_of kvs key \<noteq> None)"
| "py_in key (PStr s) = Inr (contains key s)"
| "py_in key (PList xs) = Inr (PStr key \<in> set xs)"
| "py_in key _ = Inl TypeError"

text \<open>\<open>v[key]\<close> for a string \<open>key\<close>.\<close>

fun subscript :: "pyval \<Rightarrow> string \<Rightarrow> py_error + pyval" where
  "subscript (PDict kvs) key =
     (case map_of kvs key of None \<Rightarrow> Inl KeyError | Some v \<Rightarrow> Inr v)"
| "subscript _ key = Inl TypeError"

text \<open>\<open>v.strip()\<close>: only a string and a byte string have the method.\<close>

fun call_strip :: "pyval \<Rightarrow> py_error + strval option" where
  "call_strip (PStr s) = Inr (Some (Str (strip s)))"
| "call_strip (PBytes b) = Inr (Some (Bytes (bytes_strip b)))"
| "call_strip _ = Inl AttributeError"

text \<open>
  The body of the \<open>try\<close>, in three blocks. Each block gives \<open>Inr (Some v)\<close> when it
  returns \<open>v\<close>, \<open>Inr None\<close> when control falls through to the next statement, and
  \<open>Inl e\<close> when it raises \<open>e\<close>.
\<close>

definition attr_choices :: "pyval \<Rightarrow> py_error + strval option" where
  "attr_choices resp =
     (case attr resp ''choices'' of
        None \<Rightarrow> Inr None
      | Some cs \<Rightarrow>
          if \<not> truthy cs then Inr None
          else (case index0 cs of
                  Inl e \<Rightarrow> Inl e
                | Inr ch \<Rightarrow>
                    (case (case attr ch ''message'' of
                             None \<Rightarrow> None
                           | Some m \<Rightarrow> attr m ''content'') of
                       Some c \<Rightarrow> call_strip c
                     | None \<Rightarrow>
                         (case attr ch ''text'' of
                            Some t \<Rightarrow> call_strip t
                          | None \<Rightarrow> Inr None))))"

definition is_dict :: "pyval \<Rightarrow> bool" where
  "is_dict v = (case v of PDict _ \<Rightarrow> True | _ \<Rightarrow> False)"

text \<open>\<open>d.get("content", "")\<close> on a dictionary.\<close>

definition dict_get_content :: "pyval \<Rightarrow> pyval" where
  "dict_get_content m =
     (case m of
        PDict kvs \<Rightarrow> (case map_of kvs ''content'' of None \<Rightarrow> PStr [] | Some v \<Rightarrow> v)
      | _ \<Rightarrow> PStr [])"

definition dict_choices :: "pyval \<Rightarrow> py_error + strval option" where
  "dict_choices resp =
     (if \<not> is_dict resp then Inr None
      else (case py_in ''choices'' resp of
              Inl e \<Rightarrow> Inl e
            | Inr False \<Rightarrow> Inr None
            | Inr True \<Rightarrow>
               (case subscript resp ''choices'' of
                  Inl e \<Rightarrow> Inl e
                | Inr cs \<Rightarrow>
                   (case index0 cs of
                      Inl e \<Rightarrow> Inl e
                    | Inr ch \<Rightarrow>
                       (case py_in ''message'' ch of
                          Inl e \<Rightarrow> Inl e
                        | Inr has_message \<Rightarrow>
                           (case (if has_message
                                  then (case subscript ch ''message'' of
                                          Inl e \<Rightarrow> Inl e
                                        | Inr m \<Rightarrow> Inr (if is_dict m then Some m else None))
                                  else Inr None) of
                              Inl e \<Rightarrow> Inl e
                            | Inr (Some m) \<Rightarrow> call_strip (dict_get_content m)
                            | Inr None \<Rightarrow>
                               (case py_in ''text'' ch of
                                  Inl e \<Rightarrow> Inl e
                                | Inr False \<Rightarrow> Inr None
                                | Inr True \<Rightarrow>
                                   (case subscript ch ''text'' of
                                      Inl e \<Rightarrow> Inl e
                                    | Inr t \<Rightarrow> call_strip t))))))))"

definition attr_content :: "pyval \<Rightarrow> py_error + strval option" where
  "attr_content resp =
     (case attr resp ''content'' of
        None \<Rightarrow> Inr None
      | Some c \<Rightarrow> call_strip c)"

definition resp_try :: "pyval \<Rightarrow> py_error + strval option" where
  "resp_try resp =
     (case attr_choices resp of
        Inr None \<Rightarrow>
          (case dict_choices resp of
             Inr None \<Rightarrow> attr_content resp
           | r \<Rightarrow> r)
      | r \<Rightarrow> r)"

text \<open>
  \<open>str(v)\<close>: a string is its own conversion. What any other value prints as is the
  parameter \<open>render\<close>; the conversion of an object is its own \<open>__str__\<close>, and that of
  a list or a dictionary is built from the conversions of the members, so \<open>render\<close>
  gives either the text or the exception raised.
\<close>

definition py_str :: "(pyval \<Rightarrow> py_error + string) \<Rightarrow> pyval \<Rightarrow> py_error + string" where
  "py_str render v = (case v of PStr s \<Rightarrow> Inr s | _ \<Rightarrow> render v)"

text \<open>The last line, \<open>str(resp).strip()\<close>, which is outside the \<open>try\<close>.\<close>

definition str_strip :: "(pyval \<Rightarrow> py_error + string) \<Rightarrow> pyval \<Rightarrow> py_error + strval" where
  "str_strip render resp =
     (case py_str render resp of
        Inl e \<Rightarrow> Inl e
      | Inr s \<Rightarrow> Inr (Str (strip s)))"

text \<open>
  The whole function: the bare \<open>except: pass\<close> takes every exception of the body to
  the last line, as does falling off the end of the body. The result is \<open>Inr\<close> of the
  returned value; \<open>Inl\<close> is an exception leaving the function.
\<close>

definition resp_text :: "(pyval \<Rightarrow> py_error + string) \<Rightarrow> pyval \<Rightarrow> py_error + strval" where
  "resp_text render resp =
     (case resp_try resp of
        Inr (Some v) \<Rightarrow> Inr v
      | Inr None \<Rightarrow> str_strip render resp
      | Inl e \<Rightarrow> str_strip render resp)"


section \<open>The financial text parser (main.py)\<close>

subsection \<open>Lines\<close>

text \<open>
  \<open>str.splitlines()\<close>: a line ends at a line boundary, \<open>\r\n\<close> counting as one; the
  boundaries are dropped and a last line that is empty is not produced.
\<close>

definition line_break_chars :: "char list" where
  "line_break_chars = [CHR 0x0A, CHR 0x0B, CHR 0x0C, CHR 0x0D,
                       CHR 0x1C, CHR 0x1D, CHR 0x1E, CHR 0x85]"

definition is_line_break :: "char \<Rightarrow> bool" where
  "is_line_break c = (c \<in> set line_break_chars)"

fun split_lines :: "string \<Rightarrow> string \<Rightarrow> string list" where
  "split_lines cur [] = (if cur = [] then [] else [cur])"
| "split_lines cur [c] = (if is_line_break c then [cur] else [cur @ [c]])"
| "split_lines cur (c # d # cs) =
     (if c = CHR 0x0D \<and> d = CHR 0x0A then cur # split_lines [] cs
      else if is_line_break c then cur # split_lines [] (d # cs)
      else split_lines (cur @ [c]) (d # cs))"

definition splitlines :: "string \<Rightarrow> string list" where
  "splitlines s = split_lines [] s"

subsection \<open>Character classes of the regular expressions\<close>

text \<open>
  \<open>\w\<close> on code points below 256: letters, digits, the underscore and the Latin-1
  letters and numeric characters.
\<close>

definition is_word :: "char \<Rightarrow> bool" where
  "is_word c =
     (let n = (of_char c :: nat) in
        (48 \<le> n \<and> n \<le> 57) \<or> (65 \<le> n \<and> n \<le> 90) \<or> n = 95 \<or> (97 \<le> n \<and> n \<le> 122)
        \<or> n = 170 \<or> n = 178 \<or> n = 179 \<or> n = 181 \<or> n = 185 \<or> n = 186
        \<or> n = 188 \<or> n = 189 \<or> n = 190
        \<or> (192 \<le> n \<and> n \<le> 214) \<or> (216 \<le> n \<and> n \<le> 246) \<or> (248 \<le> n \<and> n \<le> 255))"

text \<open>
  \<open>\b\<close> between two neighbouring positions: exactly one side is a word character,
  the outside of the string counting as a non-word character.
\<close>

definition word_at :: "char option \<Rightarrow> bool" where
  "word_at p = (case p of None \<Rightarrow> False | Some c \<Rightarrow> is_word c)"

definition boundary :: "char option \<Rightarrow> char option \<Rightarrow> bool" where
  "boundary before after = (word_at before \<noteq> word_at after)"

definition first_char :: "string \<Rightarrow> char option" where
  "first_char s = (case s of [] \<Rightarrow> None | c # _ \<Rightarrow> Some c)"

text \<open>
  \<open>re.I\<close>: two characters match when they agree after folding the upper-case letters
  (ASCII and Latin-1) to lower case.
\<close>

definition fold_case :: "char \<Rightarrow> char" where
  "fold_case c =
     (let n = (of_char c :: nat) in
        if (65 \<le> n \<and> n \<le> 90) \<or> (192 \<le> n \<and> n \<le> 214) \<or> (216 \<le> n \<and> n \<le> 222)
        then char_of (n + 32) else c)"

definition ci_prefix :: "string \<Rightarrow> string \<Rightarrow> bool" where
  "ci_prefix p s = (map fold_case (take (length p) s) = map fold_case p)"

subsection \<open>The label patterns\<close>

text \<open>
  \<open>a\s*b\<close> for two literal words, matched at the start of \<open>s\<close>. The greedy \<open>\s*\<close>
  takes the whole whitespace run; a shorter one would leave a whitespace character
  where the first letter of \<open>b\<close> has to be.
\<close>

definition two_words_here :: "string \<Rightarrow> string \<Rightarrow> string \<Rightarrow> bool" where
  "two_words_here a b s =
     (ci_prefix a s \<and> ci_prefix b (dropWhile is_space (drop (length a) s)))"

text \<open>\<open>re.search\<close> tries every start position, the end of the string included.\<close>

fun search_two_words :: "string \<Rightarrow> string \<Rightarrow> string \<Rightarrow> bool" where
  "search_two_words a b [] = two_words_here a b []"
| "search_two_words a b (c # cs) =
     (two_words_here a b (c # cs) \<or> search_two_words a b cs)"

text \<open>
  \<open>\bkw\b\<close> for a literal \<open>kw\<close>, matched at the start of \<open>s\<close>, with \<open>prev\<close> the
  character before \<open>s\<close>.
\<close>

definition word_here :: "string \<Rightarrow> char option \<Rightarrow> string \<Rightarrow> bool" where
  "word_here kw prev s =
     (boundary prev (first_char s) \<and> ci_prefix kw s \<and>
      boundary (if kw = [] then prev else Some (last (take (length kw) s)))
               (first_char (drop (length kw) s)))"

fun search_word_from :: "string \<Rightarrow> char option \<Rightarrow> string \<Rightarrow> bool" where
  "search_word_from kw prev [] = word_here kw prev []"
| "search_word_from kw prev (c # cs) =
     (word_here kw prev (c # cs) \<or> search_word_from kw (Some c) cs)"

definition search_word :: "string \<Rightarrow> string \<Rightarrow> bool" where
  "search_word kw line = search_word_from kw None line"

subsection \<open>Numeric tokens\<close>

text \<open>
  \<open>\b\d+(?:\.\d{1,2})?\b\<close> at a position that starts with a digit and has a word
  boundary before it. \<open>\d+\<close> is the whole digit run: with a shorter one the next
  character is a digit, which is neither the period nor a boundary. The fraction is
  tried with two digits, then with one, then left out.
\<close>

definition token_here :: "string \<Rightarrow> string option" where
  "token_here s =
     (let ds = takeWhile is_digit s; r = dropWhile is_digit s;
          ends = (\<lambda>t. \<not> word_at (first_char t))
      in case r of
           c # d1 # d2 # t \<Rightarrow>
             if c = CHR ''.'' \<and> is_digit d1 \<and> is_digit d2 \<and> ends t then Some (ds @ [c, d1, d2])
             else if c = CHR ''.'' \<and> is_digit d1 \<and> ends (d2 # t) then Some (ds @ [c, d1])
             else if ends r then Some ds else None
         | [c, d1] \<Rightarrow>
             if c = CHR ''.'' \<and> is_digit d1 then Some (ds @ [c, d1])
             else if ends r then Some ds else None
         | _ \<Rightarrow> if ends r then Some ds else None)"

text \<open>
  \<open>re.findall\<close>: the matches from left to right, each search resuming where the
  previous match ended.
\<close>

function find_tokens :: "char option \<Rightarrow> string \<Rightarrow> string list" where
  "find_tokens prev [] = []"
| "find_tokens prev (c # cs) =
     (if is_digit c \<and> \<not> word_at prev then
        (case token_here (c # cs) of
           Some tok \<Rightarrow>
             (if tok = [] then find_tokens (Some c) cs
              else tok # find_tokens (Some (last tok)) (drop (length tok) (c # cs)))
         | None \<Rightarrow> find_tokens (Some c) cs)
      else find_tokens (Some c) cs)"
  by pat_completeness auto
termination
  by (relation "measure (\<lambda>(prev, s). length s)") (auto simp: Suc_lessI)

definition number_tokens :: "string \<Rightarrow> string list" where
  "number_tokens line = find_tokens None line"

subsection \<open>parse\_total\_amount\<close>

text \<open>
  A pattern is kept as the test \<open>re.search(p, ln, re.I)\<close> it stands for. The four
  patterns, in the order of the source.
\<close>

definition total_patterns :: "(string \<Rightarrow> bool) list" where
  "total_patterns =
     [search_two_words ''net'' ''payable'',
      search_two_words ''amount'' ''payable'',
      search_two_words ''grand'' ''total'',
      search_word ''total'']"

text \<open>The inner loop, over the lines it is given (the caller reverses them).\<close>

fun scan_lines :: "(string \<Rightarrow> bool) \<Rightarrow> string list \<Rightarrow> string option" where
  "scan_lines p [] = None"
| "scan_lines p (line # rest) =
     (if p line then
        (case number_tokens line of
           [] \<Rightarrow> scan_lines p rest
         | v # vs \<Rightarrow> Some (last (v # vs)))
      else scan_lines p rest)"

text \<open>The outer loop over the patterns; the first \<open>return\<close> ends both loops.\<close>

fun scan_patterns :: "(string \<Rightarrow> bool) list \<Rightarrow> string list \<Rightarrow> string option" where
  "scan_patterns [] lines = None"
| "scan_patterns (p # ps) lines =
     (case scan_lines p (rev lines) of
        Some v \<Rightarrow> Some v
      | None \<Rightarrow> scan_patterns ps lines)"

text \<open>
  \<open>to_float\<close> is Python's \<open>float\<close> on a token. It is a parameter: a token is digits
  with at most two fraction digits, on which \<open>float\<close> does not raise.
\<close>

definition parse_total_amount :: "(string \<Rightarrow> 'n) \<Rightarrow> string \<Rightarrow> 'n option" where
  "parse_total_amount to_float text =
     map_option to_float (scan_patterns total_patterns (splitlines text))"

subsection \<open>sum\_non\_payables\<close>

text \<open>
  The keyword is pasted into the pattern \<open>\b{kw}\b\<close> as it is, with no escaping. The
  characters that are special in a regular expression, and those of them that are
  operators: all but the period, which stands for one character.
\<close>

definition regex_special :: "char \<Rightarrow> bool" where
  "regex_special c = (c \<in> set ''.^$*+?{}[]|()'' \<or> c = CHR 0x5C)"

definition regex_operator :: "char \<Rightarrow> bool" where
  "regex_operator c = (regex_special c \<and> c \<noteq> CHR ''.'')"

text \<open>
  One character of a keyword without operators against one character of the line: a
  period matches every character but the newline, any other character matches itself
  up to letter case.
\<close>

definition kw_char :: "char \<Rightarrow> char \<Rightarrow> bool" where
  "kw_char p c = (if p = CHR ''.'' then c \<noteq> NL else fold_case c = fold_case p)"

fun kw_prefix :: "string \<Rightarrow> string \<Rightarrow> bool" where
  "kw_prefix [] s = True"
| "kw_prefix (p # ps) [] = False"
| "kw_prefix (p # ps) (c # cs) = (kw_char p c \<and> kw_prefix ps cs)"

text \<open>
  \<open>\b{kw}\b\<close> for such a keyword, matched at the start of \<open>s\<close>, with \<open>prev\<close> the
  character before \<open>s\<close>; the boundaries are those of the matched text.
\<close>

definition kw_here :: "string \<Rightarrow> char option \<Rightarrow> string \<Rightarrow> bool" where
  "kw_here kw prev s =
     (boundary prev (first_char s) \<and> kw_prefix kw s \<and>
      boundary (if kw = [] then prev else Some (last (take (length kw) s)))
               (first_char (drop (length kw) s)))"

fun search_kw_from :: "string \<Rightarrow> char option \<Rightarrow> string \<Rightarrow> bool" where
  "search_kw_from kw prev [] = kw_here kw prev []"
| "search_kw_from kw prev (c # cs) =
     (kw_here kw prev (c # cs) \<or> search_kw_from kw (Some c) cs)"

definition search_kw :: "string \<Rightarrow> string \<Rightarrow> bool" where
  "search_kw kw line = search_kw_from kw None line"

text \<open>
  \<open>re.search(rf'\b{kw}\b', ln, re.I)\<close>. For a keyword with an operator in it the
  outcome, which can be the error of a pattern that does not compile, is the
  parameter \<open>rx\<close>.
\<close>

definition kw_search ::
  "(string \<Rightarrow> string \<Rightarrow> py_error + bool) \<Rightarrow> string \<Rightarrow> string \<Rightarrow> py_error + bool" where
  "kw_search rx kw line =
     (if list_ex regex_operator kw then rx kw line else Inr (search_kw kw line))"

fun kw_lines ::
  "(string \<Rightarrow> 'n) \<Rightarrow> (string \<Rightarrow> string \<Rightarrow> py_error + bool) \<Rightarrow> string \<Rightarrow> string list
     \<Rightarrow> (string \<times> 'n) list \<Rightarrow> py_error + (string \<times> 'n) list" where
  "kw_lines to_float rx kw [] hits = Inr hits"
| "kw_lines to_float rx kw (line # rest) hits =
     (case kw_search rx kw line of
        Inl e \<Rightarrow> Inl e
      | Inr True \<Rightarrow>
          (case number_tokens line of
             [] \<Rightarrow> kw_lines to_float rx kw rest hits
           | v # vs \<Rightarrow> kw_lines to_float rx kw rest (hits @ [(kw, to_float (last (v # vs)))]))
      | Inr False \<Rightarrow> kw_lines to_float rx kw rest hits)"

fun kw_loop ::
  "(string \<Rightarrow> 'n) \<Rightarrow> (string \<Rightarrow> string \<Rightarrow> py_error + bool) \<Rightarrow> string \<Rightarrow> string list
     \<Rightarrow> (string \<times> 'n) list \<Rightarrow> py_error + (string \<times> 'n) list" where
  "kw_loop to_float rx text [] hits = Inr hits"
| "kw_loop to_float rx text (kw # kws) hits =
     (case kw_lines to_float rx kw (splitlines text) hits of
        Inl e \<Rightarrow> Inl e
      | Inr hits' \<Rightarrow> kw_loop to_float rx text kws hits')"

text \<open>\<open>sum(...)\<close> starts from 0 and adds from left to right.\<close>

definition py_sum :: "('n::{zero,plus}) list \<Rightarrow> 'n" where
  "py_sum vs = foldl (+) 0 vs"

definition sum_non_payables ::
  "(string \<Rightarrow> 'n::{zero,plus}) \<Rightarrow> (string \<Rightarrow> string \<Rightarrow> py_error + bool) \<Rightarrow> string \<Rightarrow> string list
     \<Rightarrow> py_error + 'n \<times> (string \<times> 'n) list" where
  "sum_non_payables to_float rx text keywords =
     (case kw_loop to_float rx text keywords [] of
        Inl e \<Rightarrow> Inl e
      | Inr hits \<Rightarrow> Inr (py_sum (map snd hits), hits))"

text \<open>
  The decimal value of a token, as a rational number. On a token whose value a
  double holds exactly, such as \<open>450.00\<close>, it is the value of \<open>float\<close>.
\<close>

definition digit_val :: "char \<Rightarrow> nat" where
  "digit_val c = of_char c - 48"

definition digits_val :: "string \<Rightarrow> nat" where
  "digits_val ds = foldl (\<lambda>n c. 10 * n + digit_val c) 0 ds"

definition decimal_value :: "string \<Rightarrow> rat" where
  "decimal_value tok =
     (let ip = takeWhile is_digit tok; fp = drop 1 (dropWhile is_digit tok)
      in of_nat (digits_val ip) + of_nat (digits_val fp) / of_nat (10 ^ length fp))"

section \<open>Messages and the invocation capability\<close>

text \<open>
  A message is a dictionary with the keys \<open>role\<close> and \<open>content\<close>. The content is a
  text or, in an extraction request, a list of parts: a text and an image reference.
  The content of an assistant message is what \<open>_resp_text\<close> returned, which can be a
  byte string.
\<close>

datatype part = TextPart string | ImageUrlPart string

datatype content = Text string | BytesText string | Parts "part list"

fun reply_content :: "strval \<Rightarrow> content" where
  "reply_content (Str s) = Text s"
| "reply_content (Bytes b) = BytesText b"

record message =
  role :: string
  content :: content

text \<open>
  The chat and vision clients are external. \<open>client.invoke(messages)\<close> is taken as a
  function of the messages it receives, giving the response or the exception it
  raises; the calls made are kept in a log, the newest last.
\<close>

type_synonym client = "message list \<Rightarrow> py_error + pyval"

type_synonym call_log = "message list list"

section \<open>The document extraction pipeline (main.py)\<close>

text \<open>
  A PIL image is its mode, its size and its pixel data. \<open>encode img\<close> stands for the
  base64 text of the PNG file of \<open>img\<close>, which \<open>pil_to_data_url\<close> gets from
  \<open>img.save\<close> and \<open>base64.b64encode\<close>.
\<close>

record image =
  img_mode :: string
  img_size :: "nat \<times> nat"
  img_data :: string

record pixmap =
  pix_width :: nat
  pix_height :: nat
  pix_samples :: string

text \<open>
  A page of an opened document: the text \<open>page.get_text()\<close> gives and the pixmap
  \<open>page.get_pixmap(dpi=d)\<close> gives for a resolution \<open>d\<close>.
\<close>

record page =
  get_text :: string
  get_pixmap :: "nat \<Rightarrow> pixmap"

definition pil_to_data_url :: "(image \<Rightarrow> string) \<Rightarrow> image \<Rightarrow> string" where
  "pil_to_data_url encode img = ''data:image/png;base64,'' @ encode img"

definition ocr_messages :: "(image \<Rightarrow> string) \<Rightarrow> image \<Rightarrow> message list" where
  "ocr_messages encode img =
     [\<lparr>role = ''system'', content = Text ''Extract text exactly. Do NOT summarize.''\<rparr>,
      \<lparr>role = ''user'',
       content = Parts [TextPart ''Extract all text:'',
                        ImageUrlPart (pil_to_data_url encode img)]\<rparr>]"

definition extract_text_from_image ::
  "(image \<Rightarrow> string) \<Rightarrow> (pyval \<Rightarrow> py_error + string) \<Rightarrow> client \<Rightarrow> image \<Rightarrow> call_log
     \<Rightarrow> call_log \<times> (py_error + strval)" where
  "extract_text_from_image encode render vision_client img calls =
     (let messages = ocr_messages encode img in
        (calls @ [messages],
         case vision_client messages of
           Inl e \<Rightarrow> Inl e
         | Inr resp \<Rightarrow> resp_text render resp))"

definition image_frombytes :: "string \<Rightarrow> nat \<times> nat \<Rightarrow> string \<Rightarrow> image" where
  "image_frombytes mode sz data = \<lparr>img_mode = mode, img_size = sz, img_data = data\<rparr>"

definition page_image :: "page \<Rightarrow> image" where
  "page_image p =
     (let pix = get_pixmap p 200
      in image_frombytes ''RGB'' (pix_width pix, pix_height pix) (pix_samples pix))"

text \<open>The loop over the pages, with the list \<open>pages\<close> collected so far.\<close>

fun pdf_pages ::
  "(image \<Rightarrow> string) \<Rightarrow> (pyval \<Rightarrow> py_error + string) \<Rightarrow> client \<Rightarrow> page list \<Rightarrow> strval list
     \<Rightarrow> call_log \<Rightarrow> call_log \<times> (py_error + strval list)" where
  "pdf_pages encode render vision_client [] pages calls = (calls, Inr pages)"
| "pdf_pages encode render vision_client (p # ps) pages calls =
     (let native = get_text p in
        if strip native \<noteq> [] then
          pdf_pages encode render vision_client ps (pages @ [Str native]) calls
        else
          (case extract_text_from_image encode render vision_client (page_image p) calls of
             (calls', Inl e) \<Rightarrow> (calls', Inl e)
           | (calls', Inr t) \<Rightarrow> pdf_pages encode render vision_client ps (pages @ [t]) calls'))"

text \<open>\<open>sep.join(xs)\<close> on strings.\<close>

fun py_join :: "string \<Rightarrow> string list \<Rightarrow> string" where
  "py_join sep [] = []"
| "py_join sep [x] = x"
| "py_join sep (x # y # ys) = x @ sep @ py_join sep (y # ys)"

text \<open>
  \<open>sep.join(pages)\<close> on the collected pages: a \<open>TypeError\<close> when one of them is a byte
  string.
\<close>

fun str_items :: "strval list \<Rightarrow> string list option" where
  "str_items [] = Some []"
| "str_items (Str s # vs) = map_option ((#) s) (str_items vs)"
| "str_items (Bytes b # vs) = None"

definition join_pages :: "string \<Rightarrow> strval list \<Rightarrow> py_error + string" where
  "join_pages sep pages =
     (case str_items pages of
        None \<Rightarrow> Inl TypeError
      | Some xs \<Rightarrow> Inr (py_join sep xs))"

text \<open>
  \<open>pymupdf_ok\<close> is the flag set at import time, and \<open>open_doc\<close> is \<open>fitz.open\<close> on the
  bytes of the file: the pages of the document, or the exception it raises.
\<close>

definition extract_text_from_pdf ::
  "bool \<Rightarrow> (string \<Rightarrow> py_error + page list) \<Rightarrow> (image \<Rightarrow> string) \<Rightarrow> (pyval \<Rightarrow> py_error + string)
     \<Rightarrow> client \<Rightarrow> string \<Rightarrow> call_log \<Rightarrow> call_log \<times> (py_error + string)" where
  "extract_text_from_pdf pymupdf_ok open_doc encode render vision_client file_bytes calls =
     (if \<not> pymupdf_ok then (calls, Inr ''PDF OCR requires `pip install pymupdf`'')
      else (case open_doc file_bytes of
              Inl e \<Rightarrow> (calls, Inl e)
            | Inr doc \<Rightarrow>
                (case pdf_pages encode render vision_client doc [] calls of
                   (calls', Inl e) \<Rightarrow> (calls', Inl e)
                 | (calls', Inr pages) \<Rightarrow> (calls', join_pages [NL, NL] pages))))"

section \<open>The conversation manager (main.py, chat\_with\_history)\<close>

text \<open>
  \<open>prompt\<close> is the constant \<open>SYSTEM_PROMPT\<close>, a fixed text with code points above 255,
  and \<open>dumps policy\<close> is \<open>json.dumps(policy)\<close>.
\<close>

definition system_msg :: "string \<Rightarrow> string \<Rightarrow> string \<Rightarrow> string" where
  "system_msg prompt policy_json bill_text =
     prompt @ [NL, NL] @ ''POLICY:'' @ [NL] @ policy_json @ [NL, NL] @ ''BILL:'' @ [NL]
       @ bill_text @ [NL]"

text \<open>
  The first statement on the history: a new message 0, or new content in the one that
  is there.
\<close>

definition refresh_system :: "string \<Rightarrow> message list \<Rightarrow> message list" where
  "refresh_system msg history =
     (if history = [] \<or> role (hd history) \<noteq> ''system''
      then \<lparr>role = ''system'', content = Text msg\<rparr> # history
      else (hd history)\<lparr>content := Text msg\<rparr> # tl history)"

text \<open>
  The history is a list that the function changes in place, so the model returns it:
  the history as the function leaves it, the log of the calls, and the reply or the
  exception that leaves the function.
\<close>

definition chat_with_history ::
  "string \<Rightarrow> ('p \<Rightarrow> string) \<Rightarrow> (pyval \<Rightarrow> py_error + string) \<Rightarrow> client \<Rightarrow> message list
     \<Rightarrow> call_log \<Rightarrow> 'p \<Rightarrow> string \<Rightarrow> string
     \<Rightarrow> message list \<times> call_log \<times> (py_error + strval)" where
  "chat_with_history prompt dumps render chat_client history calls policy bill_text user_input =
     (let history = refresh_system (system_msg prompt (dumps policy) bill_text) history;
          history = history @ [\<lparr>role = ''user'', content = Text user_input\<rparr>];
          calls = calls @ [history]
      in case chat_client history of
           Inl e \<Rightarrow> (history, calls, Inl e)
         | Inr resp \<Rightarrow>
             (case resp_text render resp of
                Inl e \<Rightarrow> (history, calls, Inl e)
              | Inr reply \<Rightarrow>
                  (history @ [\<lparr>role = ''assistant'', content = reply_content reply\<rparr>],
                   calls, Inr reply)))"

section \<open>The session (app.py)\<close>

text \<open>
  The session state of the page: the history, the bill text, the text of the composer
  and the flag that clears the composer on the next run.
\<close>

record session =
  chat_history :: "message list"
  bill_text :: string
  composer :: string
  clear_composer :: bool

text \<open>The handler of the Reset Chat button.\<close>

definition reset_chat :: "session \<Rightarrow> session" where
  "reset_chat st = st\<lparr>chat_history := [], clear_composer := True\<rparr>"

text \<open>The handler of the Clear button of the bill panel.\<close>

definition clear_bill :: "session \<Rightarrow> session" where
  "clear_bill st = st\<lparr>bill_text := []\<rparr>"

text \<open>
  The handler of the Extract Text button, given the outcome of the extraction: the
  text is stored, and an exception is shown and changes nothing.
\<close>

definition store_bill :: "py_error + string \<Rightarrow> session \<Rightarrow> session" where
  "store_bill extracted st =
     (case extracted of
        Inl e \<Rightarrow> st
      | Inr t \<Rightarrow> st\<lparr>bill_text := t\<rparr>)"

text \<open>
  The handler of the Send button, with the policy selected in the sidebar. The history
  of the session is the list \<open>chat_with_history\<close> changes in place, so it is changed
  also when the call raises; the exception is shown and goes no further.
\<close>

definition send_chat ::
  "string \<Rightarrow> ('p \<Rightarrow> string) \<Rightarrow> (pyval \<Rightarrow> py_error + string) \<Rightarrow> client \<Rightarrow> 'p \<Rightarrow> session
     \<Rightarrow> call_log \<Rightarrow> session \<times> call_log" where
  "send_chat prompt dumps render chat_client policy st calls =
     (let text = strip (composer st) in
        if text = [] then (st, calls)
        else (case chat_with_history prompt dumps render chat_client (chat_history st) calls
                     policy (bill_text st) text of
                (history, calls', Inl e) \<Rightarrow> (st\<lparr>chat_history := history\<rparr>, calls')
              | (history, calls', Inr reply) \<Rightarrow>
                  (st\<lparr>chat_history := history, clear_composer := True\<rparr>, calls')))"

section \<open>The policy store (main.py, load\_policy\_data)\<close>

text \<open>
  \<open>open_file path\<close> is \<open>open(path, "r", encoding="utf-8")\<close>: the file object, or the
  exception raised, such as \<open>FileNotFoundError\<close> for a missing file and
  \<open>IsADirectoryError\<close> for a directory. \<open>json_load f\<close> is \<open>json.load(f)\<close>: the parsed
  document, or the exception raised, such as \<open>UnicodeDecodeError\<close> for bytes that are
  not UTF-8 and \<open>JSONDecodeError\<close> for a text that is not well-formed JSON. The
  function catches nothing and raises nothing of its own.
\<close>

definition load_policy_data ::
  "(string \<Rightarrow> py_error + 'f) \<Rightarrow> ('f \<Rightarrow> py_error + 'j) \<Rightarrow> string \<Rightarrow> py_error + 'j" where
  "load_policy_data open_file json_load path =
     (case open_file path of
        Inl e \<Rightarrow> Inl e
      | Inr f \<Rightarrow> json_load f)"


section \<open>Sample values\<close>

text \<open>Concrete parameters and inputs at which the theorems below are instantiated.\<close>

definition render_kind :: "pyval \<Rightarrow> py_error + string" where
  "render_kind v =
     (case v of PObj _ \<Rightarrow> Inr '' <object> '' | PDict _ \<Rightarrow> Inr ''{...}'' | _ \<Rightarrow> Inr ''?'')"

text \<open>
  A conversion that fails on deep nesting: the conversion of a list converts its
  members, and the interpreter raises \<open>RecursionError\<close> when the calls nest deeper
  than its limit, here \<open>limit\<close> lists inside one another.
\<close>

fun first_error :: "(py_error + 'a) list \<Rightarrow> py_error + 'a list" where
  "first_error [] = Inr []"
| "first_error (Inl e # rs) = Inl e"
| "first_error (Inr x # rs) =
     (case first_error rs of Inl e \<Rightarrow> Inl e | Inr xs \<Rightarrow> Inr (x # xs))"

fun render_nested :: "nat \<Rightarrow> pyval \<Rightarrow> py_error + string" where
  "render_nested 0 (PList xs) = Inl RecursionError"
| "render_nested (Suc n) (PList xs) =
     (case first_error (map (render_nested n) xs) of
        Inl e \<Rightarrow> Inl e
      | Inr ss \<Rightarrow> Inr (''['' @ py_join '', '' ss @ '']''))"
| "render_nested limit v = render_kind v"

definition resp_nested :: pyval where
  "resp_nested = PList [PList [PList []]]"

text \<open>A response whose content is a byte string.\<close>

definition resp_bytes :: pyval where
  "resp_bytes = PObj [(''content'', PBytes '' ok '')]"

text \<open>
  A response whose first candidate has a message with the content \<open>None\<close> and a flat
  text field, and which has the top-level attributes \<open>content\<close> and \<open>text\<close>.
\<close>

definition resp_none_content :: pyval where
  "resp_none_content =
     PObj [(''choices'',
            PList [PObj [(''message'', PObj [(''content'', PNone)]),
                         (''text'', PStr ''hello'')]]),
           (''content'', PStr ''top content''),
           (''text'', PStr ''top text'')]"

text \<open>
  A dictionary response whose first candidate has a message without content and a
  flat text field.
\<close>

definition resp_no_content_dict :: pyval where
  "resp_no_content_dict =
     PDict [(''choices'',
             PList [PDict [(''message'', PDict []), (''text'', PStr ''hello'')]])]"

text \<open>A response with a top-level attribute \<open>text\<close> and nothing else.\<close>

definition resp_top_text :: pyval where
  "resp_top_text = PObj [(''text'', PStr ''hello'')]"

definition resp_message :: pyval where
  "resp_message =
     PObj [(''choices'',
            PList [PObj [(''message'', PObj [(''content'', PStr '' Covered. '')]),
                         (''text'', PStr ''flat'')]]),
           (''content'', PStr ''top'')]"

definition resp_flat :: pyval where
  "resp_flat =
     PObj [(''choices'', PList [PObj [(''text'', PStr ''flat '')]]),
           (''content'', PStr ''top'')]"

definition resp_top :: pyval where
  "resp_top = PObj [(''choices'', PList []), (''content'', PStr '' top'')]"

definition resp_dict :: pyval where
  "resp_dict =
     PDict [(''choices'',
             PList [PDict [(''message'', PDict [(''content'', PStr ''Hi there '')])]])]"

definition resp_empty_choices :: pyval where
  "resp_empty_choices = PDict [(''choices'', PList [])]"

definition resp_bad_choices :: pyval where
  "resp_bad_choices = PObj [(''choices'', PInt 7), (''content'', PStr ''top'')]"

definition resp_dict_flat :: pyval where
  "resp_dict_flat = PDict [(''choices'', PList [PDict [(''text'', PStr '' flat'')]])]"

definition resp_plain :: pyval where
  "resp_plain = PStr ''  plain text ''"

text \<open>Responses whose first candidate has none of the fields.\<close>

definition resp_bare :: pyval where
  "resp_bare = PObj [(''choices'', PList [PObj [(''index'', PInt 0)]]), (''content'', PStr ''top '')]"

definition resp_dict_bare :: pyval where
  "resp_dict_bare = PDict [(''choices'', PList [PDict [(''index'', PInt 0)]])]"

definition resp_dict_word :: pyval where
  "resp_dict_word = PDict [(''choices'', PList [PStr ''message'']), (''content'', PStr ''top'')]"

definition resp_dict_other :: pyval where
  "resp_dict_other = PDict [(''answer'', PStr ''Covered.'')]"

text \<open>
  The invariant of the conversation history for a system context \<open>ctx\<close>: a history
  that is not empty starts with a system message that holds \<open>ctx\<close>.
\<close>

definition history_inv :: "string \<Rightarrow> message list \<Rightarrow> bool" where
  "history_inv ctx history =
     (history \<noteq> [] \<longrightarrow> role (hd history) = ''system'' \<and> content (hd history) = Text ctx)"

text \<open>
  The messages of the history that the first statement of \<open>chat_with_history\<close> leaves
  alone: all of them but a system message at position 0.
\<close>

definition prior_turns :: "message list \<Rightarrow> message list" where
  "prior_turns history =
     (if history \<noteq> [] \<and> role (hd history) = ''system'' then tl history else history)"

text \<open>
  The text one page contributes when it is extracted on its own: its native text when
  that has a non-whitespace character, else the reply of the vision client to the
  page's image at 200 DPI.
\<close>

definition page_text ::
  "(image \<Rightarrow> string) \<Rightarrow> (pyval \<Rightarrow> py_error + string) \<Rightarrow> client \<Rightarrow> page
     \<Rightarrow> py_error + strval" where
  "page_text encode render vision_client p =
     (if strip (get_text p) \<noteq> [] then Inr (Str (get_text p))
      else snd (extract_text_from_image encode render vision_client (page_image p) []))"

definition needs_ocr :: "page \<Rightarrow> bool" where
  "needs_ocr p = (strip (get_text p) = [])"

definition sample_prompt :: string where
  "sample_prompt = ''You are a Health Insurance Claim Assistant.''"

definition sample_dumps :: "string \<Rightarrow> string" where
  "sample_dumps policy = ''{\"plan\": \"'' @ policy @ ''\"}''"

definition reply_client :: client where
  "reply_client messages =
     Inr (PObj [(''content'', PStr (''reply '' @ [char_of (48 + length messages)] @ '' ''))])"

definition failing_client :: client where
  "failing_client messages = Inl (InvokeError ''connection refused'')"

definition sample_encode :: "image \<Rightarrow> string" where
  "sample_encode img = ''iVBORw0KGgo=''"

definition sample_pixmap :: "nat \<Rightarrow> pixmap" where
  "sample_pixmap dpi = \<lparr>pix_width = 2 * dpi, pix_height = 3 * dpi, pix_samples = ''''\<rparr>"

definition page_native :: page where
  "page_native = \<lparr>get_text = ''Total: 500.00'' @ [NL], get_pixmap = sample_pixmap\<rparr>"

definition page_scanned :: page where
  "page_scanned = \<lparr>get_text = [], get_pixmap = sample_pixmap\<rparr>"

definition page_newline :: page where
  "page_newline = \<lparr>get_text = [NL], get_pixmap = sample_pixmap\<rparr>"

definition ocr_client :: client where
  "ocr_client messages = Inr (PObj [(''content'', PStr ''Net Payable: 450.00'')])"

definition sample_open :: "string \<Rightarrow> py_error + page list" where
  "sample_open file_bytes =
     (if starts_with ''%PDF'' file_bytes then Inr [page_native, page_scanned]
      else Inl (OpenError ''cannot open broken document''))"

definition newline_open :: "string \<Rightarrow> py_error + page list" where
  "newline_open file_bytes = Inr [page_newline]"

text \<open>
  A directory with the files \<open>policy.json\<close>, \<open>broken.json\<close> and \<open>latin1.json\<close> and the
  directory \<open>data\<close>; an open file is the bytes it holds. A parser that knows the
  texts of these files.
\<close>

definition sample_open_file :: "string \<Rightarrow> py_error + string" where
  "sample_open_file path =
     (if path = ''policy.json'' then Inr ''{}''
      else if path = ''broken.json'' then Inr ''{''
      else if path = ''latin1.json'' then Inr [CHR 0x22, CHR 0xE9, CHR 0x22]
      else if path = ''data'' then Inl IsADirectoryError
      else Inl FileNotFoundError)"

definition sample_json_load :: "string \<Rightarrow> py_error + pyval" where
  "sample_json_load bytes =
     (if bytes = ''{}'' then Inr (PDict [])
      else if list_ex (\<lambda>c. 128 \<le> (of_char c :: nat)) bytes then Inl UnicodeDecodeError
      else Inl JSONDecodeError)"

text \<open>A byte string occurs somewhere in a value.\<close>

fun has_bytes :: "pyval \<Rightarrow> bool" where
  "has_bytes (PBytes b) = True"
| "has_bytes (PList xs) = (\<exists>x \<in> set xs. has_bytes x)"
| "has_bytes (PDict kvs) = (\<exists>kv \<in> set kvs. has_bytes (snd kv))"
| "has_bytes (PObj attrs) = (\<exists>kv \<in> set attrs. has_bytes (snd kv))"
| "has_bytes _ = False"

text \<open>
  What a field that a strategy has found makes of the result: the field stripped; a
  value that is neither a string nor a byte string has no \<open>strip\<close>, the failure is
  swallowed and the result is that of the last line.
\<close>

definition field_result :: "(pyval \<Rightarrow> py_error + string) \<Rightarrow> pyval \<Rightarrow> pyval \<Rightarrow> py_error + strval" where
  "field_result render resp c =
     (case c of
        PStr s \<Rightarrow> Inr (Str (strip s))
      | PBytes b \<Rightarrow> Inr (Bytes (bytes_strip b))
      | _ \<Rightarrow> str_strip render resp)"

text \<open>A returned value has no whitespace at either end.\<close>

fun trimmed :: "strval \<Rightarrow> bool" where
  "trimmed (Str s) = (s = [] \<or> (\<not> is_space (hd s) \<and> \<not> is_space (last s)))"
| "trimmed (Bytes b) = (b = [] \<or> (\<not> bytes_space (hd b) \<and> \<not> bytes_space (last b)))"

text \<open>A session in which a bill has been extracted and a question typed.\<close>

definition sample_session :: session where
  "sample_session =
     \<lparr>chat_history = [], bill_text = ''Total: 500.00'', composer = '' Am I covered? '',
      clear_composer = False\<rparr>"

text \<open>
  A line is usable for a pattern when the pattern is found in it and it has a numeric
  token.
\<close>

definition usable :: "(string \<Rightarrow> bool) \<Rightarrow> string \<Rightarrow> bool" where
  "usable p line = (p line \<and> number_tokens line \<noteq> [])"

text \<open>
  The form of a numeric token: digits, at least one, then nothing or a period with one
  or two digits.
\<close>

definition token_form :: "string \<Rightarrow> bool" where
  "token_form tok =
     (takeWhile is_digit tok \<noteq> [] \<and>
      (case dropWhile is_digit tok of
         [] \<Rightarrow> True
       | c # fs \<Rightarrow> c = CHR ''.'' \<and> (length fs = 1 \<or> length fs = 2) \<and> list_all is_digit fs))"

definition last_char :: "string \<Rightarrow> char option" where
  "last_char s = (if s = [] then None else Some (last s))"

definition no_rx :: "string \<Rightarrow> string \<Rightarrow> py_error + bool" where
  "no_rx kw line = Inl TypeError"

definition bill_two_totals :: string where
  "bill_two_totals = ''Total: 500.00'' @ [NL] @ ''Net Payable: 450.00''"

definition bill_fees :: string where
  "bill_fees = ''Registration charge 100.00'' @ [NL] @ ''Admin Fee: 50.00''"

text \<open>The character before a position that comes after \<open>pre\<close>, with \<open>prev\<close> before \<open>pre\<close>.\<close>

definition char_before :: "char option \<Rightarrow> string \<Rightarrow> char option" where
  "char_before prev pre = (if pre = [] then prev else Some (last pre))"

text \<open>The texts that step 5 leaves as they are: no run of three newlines.\<close>

fun newlines_squeezed :: "string \<Rightarrow> bool" where
  "newlines_squeezed [] = True"
| "newlines_squeezed (c # cs) =
     ((c \<noteq> NL \<or> length (takeWhile (\<lambda>x. x = NL) cs) < 2) \<and> newlines_squeezed cs)"

text \<open>
  Every numbered point that starts after the first character of the text comes right
  after a whitespace character; \<open>p\<close> is the character before the text.
\<close>

fun points_after_space :: "char option \<Rightarrow> string \<Rightarrow> bool" where
  "points_after_space p [] = True"
| "points_after_space p (c # cs) =
     ((\<not> numbered_ahead (c # cs) \<or> (case p of None \<Rightarrow> True | Some q \<Rightarrow> is_space q))
      \<and> points_after_space (Some c) cs)"

text \<open>
  What steps 1 and 2 together make of such a text, in one pass: the whitespace before
  a numbered point becomes two newlines, or one blank after a period, and any other
  whitespace after a period becomes one blank.
\<close>

definition point_gap :: "char \<Rightarrow> string" where
  "point_gap c = (if c = CHR ''.'' then '' '' else [NL, NL])"

function settle :: "string \<Rightarrow> string" where
  "settle [] = []"
| "settle (c # cs) =
     (if takeWhile is_space cs \<noteq> [] \<and> numbered_ahead (dropWhile is_space cs)
      then c # point_gap c @ settle (dropWhile is_space cs)
      else if c = CHR ''.'' \<and> takeWhile is_space cs \<noteq> []
      then CHR ''.'' # CHR '' '' # settle (dropWhile is_space cs)
      else c # settle cs)"
  by pat_completeness auto
termination
  by (relation "measure length") (auto simp: less_Suc_eq_le length_dropWhile_le)

text \<open>
  The same condition on the numbered points, following the pass of \<open>settle\<close>, and the
  texts that the pass leaves as they are.
\<close>

function spaced :: "string \<Rightarrow> bool" where
  "spaced [] = True"
| "spaced (c # cs) =
     (if takeWhile is_space cs \<noteq> [] \<and> numbered_ahead (dropWhile is_space cs)
      then \<not> is_space c \<and> spaced (dropWhile is_space cs)
      else \<not> numbered_ahead cs \<and> spaced cs)"
  by pat_completeness auto
termination
  by (relation "measure length") (auto simp: less_Suc_eq_le length_dropWhile_le)

function settled :: "string \<Rightarrow> bool" where
  "settled [] = True"
| "settled (c # cs) =
     (if takeWhile is_space cs \<noteq> [] \<and> numbered_ahead (dropWhile is_space cs)
      then \<not> is_space c \<and> takeWhile is_space cs = point_gap c
           \<and> settled (dropWhile is_space cs)
      else \<not> numbered_ahead cs
           \<and> (c \<noteq> CHR ''.'' \<or> takeWhile is_space cs = [] \<or> takeWhile is_space cs = '' '')
           \<and> settled cs)"
  by pat_completeness auto
termination
  by (relation "measure length") (auto simp: less_Suc_eq_le length_dropWhile_le)

definition reply_points :: string where
  "reply_points =
     ''  Summary:  1. Eligible room: Single   2. Status: within cap. 3. Extra: 0.00''
       @ [NL, NL, NL, NL] @ ''Thanks.  ''"

section \<open>Properties of the string functions\<close>

lemma rstrip_prefix: "\<exists>w. s = rstrip s @ w"
proof -
  have "rev (takeWhile is_space (rev s) @ dropWhile is_space (rev s)) = rev (rev s)"
    by (simp only: takeWhile_dropWhile_id)
  then have "s = rstrip s @ rev (takeWhile is_space (rev s))"
    by (simp only: rev_append rev_rev_ident rstrip_def)
  then show ?thesis ..
qed

lemma rstrip_last: "rstrip s \<noteq> [] \<Longrightarrow> \<not> is_space (last (rstrip s))"
  unfolding rstrip_def using hd_dropWhile [of is_space "rev s"]
  by (simp add: last_rev)

lemma rstrip_hd: "rstrip s \<noteq> [] \<Longrightarrow> hd (rstrip s) = hd s"
  using rstrip_prefix [of s] by (metis hd_append2)

lemma strip_hd: "strip s \<noteq> [] \<Longrightarrow> \<not> is_space (hd (strip s))"
proof -
  assume a: "strip s \<noteq> []"
  then have "hd (strip s) = hd (lstrip s)" by (simp add: strip_def rstrip_hd)
  moreover from a have "lstrip s \<noteq> []" by (auto simp: strip_def rstrip_def)
  ultimately show ?thesis by (simp add: lstrip_def hd_dropWhile)
qed

lemma strip_last: "strip s \<noteq> [] \<Longrightarrow> \<not> is_space (last (strip s))"
  by (simp add: strip_def rstrip_last)

lemma rstrip_id: "s = [] \<or> \<not> is_space (last s) \<Longrightarrow> rstrip s = s"
  by (cases s rule: rev_cases) (auto simp: rstrip_def)

lemma lstrip_id: "s = [] \<or> \<not> is_space (hd s) \<Longrightarrow> lstrip s = s"
  by (simp add: lstrip_def dropWhile_eq_self_iff)

lemma strip_id: "s = [] \<or> (\<not> is_space (hd s) \<and> \<not> is_space (last s)) \<Longrightarrow> strip s = s"
  by (auto simp: strip_def lstrip_id rstrip_id)

lemma strip_strip: "strip (strip s) = strip s"
  using strip_hd [of s] strip_last [of s] by (intro strip_id) blast

lemma bytes_strip_ends:
  "bytes_strip b = [] \<or>
   (\<not> bytes_space (hd (bytes_strip b)) \<and> \<not> bytes_space (last (bytes_strip b)))"
proof (cases "bytes_strip b = []")
  case True
  then show ?thesis ..
next
  case False
  let ?l = "dropWhile bytes_space b"
  from False have n: "dropWhile bytes_space (rev ?l) \<noteq> []"
    by (simp add: bytes_strip_def)
  then have "\<not> bytes_space (hd (dropWhile bytes_space (rev ?l)))"
    by (rule hd_dropWhile)
  with n have e: "\<not> bytes_space (last (bytes_strip b))"
    by (simp add: bytes_strip_def last_rev)
  have "rev (takeWhile bytes_space (rev ?l) @ dropWhile bytes_space (rev ?l)) = rev (rev ?l)"
    by (simp only: takeWhile_dropWhile_id)
  then have p: "?l = bytes_strip b @ rev (takeWhile bytes_space (rev ?l))"
    by (simp only: rev_append rev_rev_ident bytes_strip_def)
  with False have "hd (bytes_strip b) = hd ?l"
    by (metis hd_append2)
  moreover from p False have "?l \<noteq> []" by (metis Nil_is_append_conv)
  then have "\<not> bytes_space (hd ?l)" by (rule hd_dropWhile)
  ultimately show ?thesis using e by simp
qed

section \<open>Properties of the response normalizer\<close>

lemma call_strip_trimmed:
  "call_strip v = Inr (Some r) \<Longrightarrow> trimmed r \<and> (\<forall>s. r = Str s \<longrightarrow> strip s = s)"
  using strip_hd strip_last bytes_strip_ends by (cases v) (auto simp: strip_strip)

lemma attr_choices_trimmed:
  "attr_choices resp = Inr (Some r) \<Longrightarrow> trimmed r \<and> (\<forall>s. r = Str s \<longrightarrow> strip s = s)"
  by (auto simp: attr_choices_def split: option.splits if_splits sum.splits
      dest: call_strip_trimmed)

lemma dict_choices_trimmed:
  "dict_choices resp = Inr (Some r) \<Longrightarrow> trimmed r \<and> (\<forall>s. r = Str s \<longrightarrow> strip s = s)"
  by (auto simp: dict_choices_def split: option.splits if_splits sum.splits bool.splits
      dest: call_strip_trimmed)

lemma attr_content_trimmed:
  "attr_content resp = Inr (Some r) \<Longrightarrow> trimmed r \<and> (\<forall>s. r = Str s \<longrightarrow> strip s = s)"
  by (auto simp: attr_content_def split: option.splits dest: call_strip_trimmed)

lemma resp_try_trimmed:
  "resp_try resp = Inr (Some r) \<Longrightarrow> trimmed r \<and> (\<forall>s. r = Str s \<longrightarrow> strip s = s)"
  by (auto simp: resp_try_def split: option.splits sum.splits
      dest: attr_choices_trimmed dict_choices_trimmed attr_content_trimmed)

text \<open>A byte string that is returned is a field of the response.\<close>

lemma call_strip_bytes: "call_strip v = Inr (Some (Bytes b)) \<Longrightarrow> has_bytes v"
  by (cases v) auto

lemma has_bytes_entry:
  "(k, c) \<in> set kvs \<Longrightarrow> has_bytes c \<Longrightarrow> \<exists>kv \<in> set kvs. has_bytes (snd kv)"
  by force

lemma attr_has_bytes: "attr v name = Some c \<Longrightarrow> has_bytes c \<Longrightarrow> has_bytes v"
  by (cases v) (auto dest!: map_of_SomeD intro: has_bytes_entry)

lemma index0_has_bytes: "index0 v = Inr c \<Longrightarrow> has_bytes c \<Longrightarrow> has_bytes v"
  by (cases v rule: index0.cases) auto

lemma subscript_has_bytes: "subscript v key = Inr c \<Longrightarrow> has_bytes c \<Longrightarrow> has_bytes v"
  by (cases v) (auto split: option.splits dest!: map_of_SomeD intro: has_bytes_entry)

lemma dict_get_content_has_bytes: "has_bytes (dict_get_content m) \<Longrightarrow> has_bytes m"
  by (cases m)
    (auto simp: dict_get_content_def split: option.splits dest!: map_of_SomeD
       intro: has_bytes_entry)

lemma attr_choices_bytes: "attr_choices resp = Inr (Some (Bytes b)) \<Longrightarrow> has_bytes resp"
  by (auto simp: attr_choices_def split: option.splits if_splits sum.splits
      dest!: call_strip_bytes dest: attr_has_bytes index0_has_bytes)

lemma dict_choices_bytes: "dict_choices resp = Inr (Some (Bytes b)) \<Longrightarrow> has_bytes resp"
  by (auto simp: dict_choices_def split: option.splits if_splits sum.splits bool.splits
      dest!: call_strip_bytes
      dest: subscript_has_bytes index0_has_bytes dict_get_content_has_bytes)

lemma attr_content_bytes: "attr_content resp = Inr (Some (Bytes b)) \<Longrightarrow> has_bytes resp"
  by (auto simp: attr_content_def split: option.splits
      dest!: call_strip_bytes dest: attr_has_bytes)

lemma resp_try_bytes: "resp_try resp = Inr (Some (Bytes b)) \<Longrightarrow> has_bytes resp"
  by (auto simp: resp_try_def split: option.splits sum.splits
      dest: attr_choices_bytes dict_choices_bytes attr_content_bytes)

lemma resp_text_cases:
  "(\<exists>v. resp_try resp = Inr (Some v) \<and> resp_text render resp = Inr v)
   \<or> ((\<forall>v. resp_try resp \<noteq> Inr (Some v)) \<and> resp_text render resp = str_strip render resp)"
  by (cases "resp_try resp") (auto simp: resp_text_def split: option.splits)

lemma str_strip_trimmed:
  "str_strip render resp = Inr v \<Longrightarrow> \<exists>s. v = Str s \<and> strip s = s \<and> trimmed v"
  using strip_hd strip_last
  by (auto simp: str_strip_def strip_strip split: sum.splits)

text \<open>
  C2, as the claim states it, fails. The last line, \<open>str(resp).strip()\<close>, is outside
  the \<open>try\<close>: for the lists \<open>[[[]]]\<close>, which no strategy applies to, the conversion
  nests deeper than a recursion limit of two lists, and the \<open>RecursionError\<close> leaves
  the function. And \<open>strip\<close> on a byte string gives a byte string: for a response whose
  content is the bytes \<open>ok\<close> between two blanks the function returns the bytes \<open>ok\<close>,
  which is not a string.
\<close>

theorem resp_text_raises_counterexample:
  "resp_try resp_nested = Inr None
   \<and> py_str (render_nested 2) resp_nested = Inl RecursionError
   \<and> resp_text (render_nested 2) resp_nested = Inl RecursionError
   \<and> resp_text render_kind resp_bytes = Inr (Bytes ''ok'')"
  by code_simp

text \<open>
  C2, amended. Every failure inside the \<open>try\<close> is swallowed: when an exception leaves
  the function, no strategy has returned and the exception is that of the string
  conversion of the whole response in the last line. For every response that has no
  byte string in it and whose string conversion does not raise, the function raises
  nothing and returns a string that has no leading and no trailing whitespace
  (stripping it changes nothing; when it is not empty, neither its first nor its last
  character is whitespace).
\<close>

theorem resp_text_raises_only_str:
  "(\<forall>e. resp_text render resp = Inl e \<longrightarrow>
          py_str render resp = Inl e \<and> (\<forall>v. resp_try resp \<noteq> Inr (Some v)))
   \<and> ((\<exists>t. py_str render resp = Inr t) \<and> \<not> has_bytes resp \<longrightarrow>
         (\<exists>s. resp_text render resp = Inr (Str s) \<and> strip s = s
              \<and> (s = [] \<or> (\<not> is_space (hd s) \<and> \<not> is_space (last s)))))"
proof -
  have raises: "\<forall>e. resp_text render resp = Inl e \<longrightarrow>
          py_str render resp = Inl e \<and> (\<forall>v. resp_try resp \<noteq> Inr (Some v))"
    using resp_text_cases [of resp render]
    by (auto simp: str_strip_def split: sum.splits)
  have returns: "\<exists>v. resp_text render resp = Inr v \<and> trimmed v
              \<and> (case v of Str s \<Rightarrow> strip s = s | Bytes b \<Rightarrow> has_bytes resp)"
    if t: "\<exists>t. py_str render resp = Inr t"
  proof -
    from resp_text_cases [of resp render] show ?thesis
    proof
      assume "\<exists>v. resp_try resp = Inr (Some v) \<and> resp_text render resp = Inr v"
      then obtain v where v: "resp_try resp = Inr (Some v)" "resp_text render resp = Inr v"
        by blast
      from v(1) have "trimmed v \<and> (\<forall>s. v = Str s \<longrightarrow> strip s = s)"
        by (rule resp_try_trimmed)
      moreover have "has_bytes resp" if "v = Bytes b" for b
        using v(1) that by (auto dest: resp_try_bytes)
      ultimately have "trimmed v
              \<and> (case v of Str s \<Rightarrow> strip s = s | Bytes b \<Rightarrow> has_bytes resp)"
        by (cases v) auto
      with v(2) show ?thesis by blast
    next
      assume a: "(\<forall>v. resp_try resp \<noteq> Inr (Some v))
                 \<and> resp_text render resp = str_strip render resp"
      from t obtain u where "py_str render resp = Inr u" ..
      then have "str_strip render resp = Inr (Str (strip u))"
        by (simp add: str_strip_def)
      with a have r: "resp_text render resp = Inr (Str (strip u))" by simp
      from strip_hd [of u] strip_last [of u]
      have "trimmed (Str (strip u))" by auto
      with r show ?thesis by (auto simp: strip_strip)
    qed
  qed
  have str: "\<exists>s. resp_text render resp = Inr (Str s) \<and> strip s = s
              \<and> (s = [] \<or> (\<not> is_space (hd s) \<and> \<not> is_space (last s)))"
    if t: "(\<exists>t. py_str render resp = Inr t) \<and> \<not> has_bytes resp"
  proof -
    from t returns obtain v where v: "resp_text render resp = Inr v" "trimmed v"
      "case v of Str s \<Rightarrow> strip s = s | Bytes b \<Rightarrow> has_bytes resp"
      by blast
    with t show ?thesis by (cases v) auto
  qed
  from raises str show ?thesis by blast
qed

theorem resp_text_raises_only_str_witness:
  "py_str render_kind resp_none_content = Inr '' <object> ''
   \<and> \<not> has_bytes resp_none_content
   \<and> resp_text render_kind resp_none_content = Inr (Str ''<object>'')
   \<and> strip ''<object>'' = ''<object>''
   \<and> \<not> is_space (hd ''<object>'') \<and> \<not> is_space (last ''<object>'')
   \<and> resp_text (render_nested 2) resp_nested = Inl RecursionError
   \<and> py_str (render_nested 2) resp_nested = Inl RecursionError
   \<and> resp_try resp_nested = Inr None"
proof -
  have p: "py_str render_kind resp_none_content = Inr '' <object> ''"
    and n: "\<not> has_bytes resp_none_content"
    and v: "resp_text render_kind resp_none_content = Inr (Str ''<object>'')"
    and rn: "resp_text (render_nested 2) resp_nested = Inl RecursionError"
    and tr: "resp_try resp_nested = Inr None"
    by code_simp+
  from p n have "(\<exists>t. py_str render_kind resp_none_content = Inr t)
                 \<and> \<not> has_bytes resp_none_content"
    by blast
  from resp_text_raises_only_str [of render_kind resp_none_content, THEN conjunct2,
      THEN mp, OF this]
  obtain s where "resp_text render_kind resp_none_content = Inr (Str s)" and "strip s = s"
    and "s = [] \<or> (\<not> is_space (hd s) \<and> \<not> is_space (last s))"
    by blast
  with v have a: "strip ''<object>'' = ''<object>''
      \<and> \<not> is_space (hd ''<object>'') \<and> \<not> is_space (last ''<object>'')"
    by auto
  from resp_text_raises_only_str [of "render_nested 2" resp_nested, THEN conjunct1,
      rule_format, OF rn]
  have c: "py_str (render_nested 2) resp_nested = Inl RecursionError" by blast
  from p n v a rn c tr show ?thesis by blast
qed

lemma call_strip_result: "call_strip c \<noteq> Inr None"
  by (cases c) simp_all

lemma resp_text_returned:
  "resp_try resp = call_strip c \<Longrightarrow> resp_text render resp = field_result render resp c"
  by (cases c) (simp_all add: resp_text_def field_result_def)

lemma resp_text_raised: "resp_try resp = Inl e \<Longrightarrow> resp_text render resp = str_strip render resp"
  by (simp add: resp_text_def)

lemma resp_text_fell: "resp_try resp = Inr None \<Longrightarrow> resp_text render resp = str_strip render resp"
  by (simp add: resp_text_def)

lemma resp_text_top:
  "resp_try resp = attr_content resp \<Longrightarrow>
   resp_text render resp =
     (case attr resp ''content'' of
        Some c \<Rightarrow> field_result render resp c
      | None \<Rightarrow> str_strip render resp)"
  by (cases "attr resp ''content''")
    (simp_all add: attr_content_def resp_text_fell resp_text_returned)

lemma resp_try_attr:
  "attr_choices resp = call_strip c \<Longrightarrow> resp_try resp = call_strip c"
  using call_strip_result [of c] by (cases "call_strip c") (auto simp: resp_try_def)

lemma resp_try_dict:
  "attr_choices resp = Inr None \<Longrightarrow> dict_choices resp = call_strip c \<Longrightarrow>
   resp_try resp = call_strip c"
  using call_strip_result [of c] by (cases "call_strip c") (auto simp: resp_try_def)

lemma attr_choices_dict: "attr_choices (PDict kvs) = Inr None"
  by (simp add: attr_choices_def)

lemma attr_content_dict: "attr_content (PDict kvs) = Inr None"
  by (simp add: attr_content_def)

text \<open>
  C3, as the claim states it, fails. The first candidate of \<open>resp_none_content\<close> has
  a message whose content is \<open>None\<close>, so \<open>content.strip()\<close> raises; it has the usable
  flat text \<open>hello\<close>, and the response has the top-level attributes \<open>content\<close> and
  \<open>text\<close>. The result is the string conversion of the whole response, not one of
  these texts. In \<open>resp_no_content_dict\<close> the message of the first candidate is a
  dictionary without content, and the result is the empty string, not the flat text
  \<open>hello\<close> of the candidate. In \<open>resp_top_text\<close> the only attribute is a top-level
  \<open>text\<close>, and the result is the string conversion of the whole response: the
  top-level attribute that is read is \<open>content\<close>.
\<close>

theorem resp_text_no_progress_counterexample:
  "resp_try resp_none_content = Inl AttributeError
   \<and> str_strip render_kind resp_none_content = Inr (Str ''<object>'')
   \<and> resp_text render_kind resp_none_content = Inr (Str ''<object>'')
   \<and> resp_text render_kind resp_none_content \<noteq> Inr (Str ''hello'')
   \<and> resp_text render_kind resp_none_content \<noteq> Inr (Str ''top content'')
   \<and> resp_text render_kind resp_none_content \<noteq> Inr (Str ''top text'')
   \<and> resp_text render_kind resp_no_content_dict = Inr (Str [])
   \<and> resp_text render_kind resp_no_content_dict \<noteq> Inr (Str ''hello'')
   \<and> str_strip render_kind resp_top_text = Inr (Str ''<object>'')
   \<and> resp_text render_kind resp_top_text = Inr (Str ''<object>'')
   \<and> resp_text render_kind resp_top_text \<noteq> Inr (Str ''hello'')"
  by code_simp

text \<open>
  C3, amended. The strategies are attempted in a fixed order. For a response with a
  \<open>choices\<close> attribute that is true: the content of the message of the first
  candidate, then the flat text of the first candidate, both read as attributes. For
  a dictionary with a \<open>choices\<close> entry: the content of the message of the first
  candidate when that message is a dictionary, then the flat text of the first
  candidate, both read as entries. Then the top-level attribute \<open>content\<close>; a
  top-level attribute \<open>text\<close> is not read. Then the string conversion of the whole
  response. A strategy whose field is absent passes control to the next one, with one
  exception: a message that is a dictionary without a \<open>content\<close> entry gives the
  empty string. A strategy whose field is present decides the result: the stripped
  field when it is a string; and when the field has no \<open>strip\<close>, the failure is
  swallowed and the result is the string conversion of the whole response, with no
  later strategy tried. The same holds when the first candidate cannot be taken, or
  when it is not a dictionary in a dictionary response.
\<close>

theorem resp_text_fallback_order:
  "(\<forall>cs e.
       attr resp ''choices'' = Some cs \<and> truthy cs \<and> index0 cs = Inl e
       \<longrightarrow> resp_text render resp = str_strip render resp)
   \<and> (\<forall>cs ch m c.
       attr resp ''choices'' = Some cs \<and> truthy cs \<and> index0 cs = Inr ch
       \<and> attr ch ''message'' = Some m \<and> attr m ''content'' = Some c
       \<longrightarrow> resp_text render resp = field_result render resp c)
   \<and> (\<forall>cs ch t.
       attr resp ''choices'' = Some cs \<and> truthy cs \<and> index0 cs = Inr ch
       \<and> (attr ch ''message'' = None
            \<or> (\<exists>m. attr ch ''message'' = Some m \<and> attr m ''content'' = None))
       \<and> attr ch ''text'' = Some t
       \<longrightarrow> resp_text render resp = field_result render resp t)
   \<and> (\<forall>cs ch.
       attr resp ''choices'' = Some cs \<and> truthy cs \<and> index0 cs = Inr ch
       \<and> (attr ch ''message'' = None
            \<or> (\<exists>m. attr ch ''message'' = Some m \<and> attr m ''content'' = None))
       \<and> attr ch ''text'' = None
       \<longrightarrow> resp_text render resp =
             (case attr resp ''content'' of
                Some c \<Rightarrow> field_result render resp c
              | None \<Rightarrow> str_strip render resp))
   \<and> (\<forall>kvs.
       resp = PDict kvs \<and> map_of kvs ''choices'' = None
       \<longrightarrow> resp_text render resp = str_strip render resp)
   \<and> (\<forall>kvs cs e.
       resp = PDict kvs \<and> map_of kvs ''choices'' = Some cs \<and> index0 cs = Inl e
       \<longrightarrow> resp_text render resp = str_strip render resp)
   \<and> (\<forall>kvs cs ch.
       resp = PDict kvs \<and> map_of kvs ''choices'' = Some cs \<and> index0 cs = Inr ch
       \<and> \<not> is_dict ch
       \<longrightarrow> resp_text render resp = str_strip render resp)
   \<and> (\<forall>kvs cs ckvs mkvs c.
       resp = PDict kvs \<and> map_of kvs ''choices'' = Some cs \<and> index0 cs = Inr (PDict ckvs)
       \<and> map_of ckvs ''message'' = Some (PDict mkvs) \<and> map_of mkvs ''content'' = Some c
       \<longrightarrow> resp_text render resp = field_result render resp c)
   \<and> (\<forall>kvs cs ckvs mkvs.
       resp = PDict kvs \<and> map_of kvs ''choices'' = Some cs \<and> index0 cs = Inr (PDict ckvs)
       \<and> map_of ckvs ''message'' = Some (PDict mkvs) \<and> map_of mkvs ''content'' = None
       \<longrightarrow> resp_text render resp = Inr (Str []))
   \<and> (\<forall>kvs cs ckvs t.
       resp = PDict kvs \<and> map_of kvs ''choices'' = Some cs \<and> index0 cs = Inr (PDict ckvs)
       \<and> (map_of ckvs ''message'' = None
            \<or> (\<exists>m. map_of ckvs ''message'' = Some m \<and> \<not> is_dict m))
       \<and> map_of ckvs ''text'' = Some t
       \<longrightarrow> resp_text render resp = field_result render resp t)
   \<and> (\<forall>kvs cs ckvs.
       resp = PDict kvs \<and> map_of kvs ''choices'' = Some cs \<and> index0 cs = Inr (PDict ckvs)
       \<and> (map_of ckvs ''message'' = None
            \<or> (\<exists>m. map_of ckvs ''message'' = Some m \<and> \<not> is_dict m))
       \<and> map_of ckvs ''text'' = None
       \<longrightarrow> resp_text render resp = str_strip render resp)
   \<and> ((attr resp ''choices'' = None \<or> (\<exists>cs. attr resp ''choices'' = Some cs \<and> \<not> truthy cs))
       \<and> \<not> is_dict resp
       \<longrightarrow> resp_text render resp =
             (case attr resp ''content'' of
                Some c \<Rightarrow> field_result render resp c
              | None \<Rightarrow> str_strip render resp))
   \<and> (\<forall>s. field_result render resp (PStr s) = Inr (Str (strip s)))
   \<and> (\<forall>c. call_strip c = Inl AttributeError \<longrightarrow>
         field_result render resp c = str_strip render resp)
   \<and> (\<forall>c. call_strip c = Inl AttributeError \<longleftrightarrow>
         (case c of PStr s \<Rightarrow> False | PBytes b \<Rightarrow> False | _ \<Rightarrow> True))
   \<and> str_strip render resp =
        (case py_str render resp of Inl e \<Rightarrow> Inl e | Inr s \<Rightarrow> Inr (Str (strip s)))"
proof -
  have a1: "\<forall>cs e.
       attr resp ''choices'' = Some cs \<and> truthy cs \<and> index0 cs = Inl e
       \<longrightarrow> resp_text render resp = str_strip render resp"
  proof (intro allI impI)
    fix cs e
    assume "attr resp ''choices'' = Some cs \<and> truthy cs \<and> index0 cs = Inl e"
    then have "attr_choices resp = Inl e" by (simp add: attr_choices_def)
    then have "resp_try resp = Inl e" by (simp add: resp_try_def)
    then show "resp_text render resp = str_strip render resp" by (rule resp_text_raised)
  qed
  have a2: "\<forall>cs ch m c.
       attr resp ''choices'' = Some cs \<and> truthy cs \<and> index0 cs = Inr ch
       \<and> attr ch ''message'' = Some m \<and> attr m ''content'' = Some c
       \<longrightarrow> resp_text render resp = field_result render resp c"
  proof (intro allI impI)
    fix cs ch m c
    assume "attr resp ''choices'' = Some cs \<and> truthy cs \<and> index0 cs = Inr ch
       \<and> attr ch ''message'' = Some m \<and> attr m ''content'' = Some c"
    then have "attr_choices resp = call_strip c" by (simp add: attr_choices_def)
    then have "resp_try resp = call_strip c" by (rule resp_try_attr)
    then show "resp_text render resp = field_result render resp c"
      by (rule resp_text_returned)
  qed
  have a3: "\<forall>cs ch t.
       attr resp ''choices'' = Some cs \<and> truthy cs \<and> index0 cs = Inr ch
       \<and> (attr ch ''message'' = None
            \<or> (\<exists>m. attr ch ''message'' = Some m \<and> attr m ''content'' = None))
       \<and> attr ch ''text'' = Some t
       \<longrightarrow> resp_text render resp = field_result render resp t"
  proof (intro allI impI)
    fix cs ch t
    assume "attr resp ''choices'' = Some cs \<and> truthy cs \<and> index0 cs = Inr ch
       \<and> (attr ch ''message'' = None
            \<or> (\<exists>m. attr ch ''message'' = Some m \<and> attr m ''content'' = None))
       \<and> attr ch ''text'' = Some t"
    then have "attr_choices resp = call_strip t" by (auto simp: attr_choices_def)
    then have "resp_try resp = call_strip t" by (rule resp_try_attr)
    then show "resp_text render resp = field_result render resp t"
      by (rule resp_text_returned)
  qed
  have a4: "\<forall>cs ch.
       attr resp ''choices'' = Some cs \<and> truthy cs \<and> index0 cs = Inr ch
       \<and> (attr ch ''message'' = None
            \<or> (\<exists>m. attr ch ''message'' = Some m \<and> attr m ''content'' = None))
       \<and> attr ch ''text'' = None
       \<longrightarrow> resp_text render resp =
             (case attr resp ''content'' of
                Some c \<Rightarrow> field_result render resp c
              | None \<Rightarrow> str_strip render resp)"
  proof (intro allI impI)
    fix cs ch
    assume h: "attr resp ''choices'' = Some cs \<and> truthy cs \<and> index0 cs = Inr ch
       \<and> (attr ch ''message'' = None
            \<or> (\<exists>m. attr ch ''message'' = Some m \<and> attr m ''content'' = None))
       \<and> attr ch ''text'' = None"
    then have "attr_choices resp = Inr None"
      by (auto simp: attr_choices_def)
    moreover from h have "\<not> is_dict resp"
      by (cases resp) (simp_all add: is_dict_def)
    then have "dict_choices resp = Inr None"
      by (simp add: dict_choices_def)
    ultimately have "resp_try resp = attr_content resp"
      by (simp add: resp_try_def)
    then show "resp_text render resp =
             (case attr resp ''content'' of
                Some c \<Rightarrow> field_result render resp c
              | None \<Rightarrow> str_strip render resp)"
      by (rule resp_text_top)
  qed
  have b0: "\<forall>kvs.
       resp = PDict kvs \<and> map_of kvs ''choices'' = None
       \<longrightarrow> resp_text render resp = str_strip render resp"
  proof (intro allI impI)
    fix kvs
    assume h: "resp = PDict kvs \<and> map_of kvs ''choices'' = None"
    then have "dict_choices resp = Inr None"
      by (simp add: dict_choices_def is_dict_def)
    with h have "resp_try resp = Inr None"
      by (simp add: resp_try_def attr_choices_dict attr_content_dict)
    then show "resp_text render resp = str_strip render resp" by (rule resp_text_fell)
  qed
  have b1: "\<forall>kvs cs e.
       resp = PDict kvs \<and> map_of kvs ''choices'' = Some cs \<and> index0 cs = Inl e
       \<longrightarrow> resp_text render resp = str_strip render resp"
  proof (intro allI impI)
    fix kvs cs e
    assume h: "resp = PDict kvs \<and> map_of kvs ''choices'' = Some cs \<and> index0 cs = Inl e"
    then have "dict_choices resp = Inl e"
      by (simp add: dict_choices_def is_dict_def)
    with h have "resp_try resp = Inl e"
      by (simp add: resp_try_def attr_choices_dict)
    then show "resp_text render resp = str_strip render resp" by (rule resp_text_raised)
  qed
  have b2: "\<forall>kvs cs ch.
       resp = PDict kvs \<and> map_of kvs ''choices'' = Some cs \<and> index0 cs = Inr ch
       \<and> \<not> is_dict ch
       \<longrightarrow> resp_text render resp = str_strip render resp"
  proof (intro allI impI)
    fix kvs cs ch
    assume h: "resp = PDict kvs \<and> map_of kvs ''choices'' = Some cs \<and> index0 cs = Inr ch
       \<and> \<not> is_dict ch"
    then have "(\<exists>e. dict_choices resp = Inl e) \<or> dict_choices resp = Inr None"
      by (cases ch) (auto simp: dict_choices_def is_dict_def split: bool.splits)
    with h have "(\<exists>e. resp_try resp = Inl e) \<or> resp_try resp = Inr None"
      by (auto simp: resp_try_def attr_choices_dict attr_content_dict)
    then show "resp_text render resp = str_strip render resp"
      by (auto simp: resp_text_raised resp_text_fell)
  qed
  have b3: "\<forall>kvs cs ckvs mkvs c.
       resp = PDict kvs \<and> map_of kvs ''choices'' = Some cs \<and> index0 cs = Inr (PDict ckvs)
       \<and> map_of ckvs ''message'' = Some (PDict mkvs) \<and> map_of mkvs ''content'' = Some c
       \<longrightarrow> resp_text render resp = field_result render resp c"
  proof (intro allI impI)
    fix kvs cs ckvs mkvs c
    assume h: "resp = PDict kvs \<and> map_of kvs ''choices'' = Some cs
       \<and> index0 cs = Inr (PDict ckvs)
       \<and> map_of ckvs ''message'' = Some (PDict mkvs) \<and> map_of mkvs ''content'' = Some c"
    then have "dict_choices resp = call_strip c"
      by (simp add: dict_choices_def is_dict_def dict_get_content_def)
    with h have "resp_try resp = call_strip c"
      by (intro resp_try_dict) (simp_all add: attr_choices_dict)
    then show "resp_text render resp = field_result render resp c"
      by (rule resp_text_returned)
  qed
  have b4: "\<forall>kvs cs ckvs mkvs.
       resp = PDict kvs \<and> map_of kvs ''choices'' = Some cs \<and> index0 cs = Inr (PDict ckvs)
       \<and> map_of ckvs ''message'' = Some (PDict mkvs) \<and> map_of mkvs ''content'' = None
       \<longrightarrow> resp_text render resp = Inr (Str [])"
  proof (intro allI impI)
    fix kvs cs ckvs mkvs
    assume h: "resp = PDict kvs \<and> map_of kvs ''choices'' = Some cs
       \<and> index0 cs = Inr (PDict ckvs)
       \<and> map_of ckvs ''message'' = Some (PDict mkvs) \<and> map_of mkvs ''content'' = None"
    then have "dict_choices resp = call_strip (PStr [])"
      by (simp add: dict_choices_def is_dict_def dict_get_content_def)
    with h have "resp_try resp = call_strip (PStr [])"
      by (intro resp_try_dict) (simp_all add: attr_choices_dict)
    then have "resp_text render resp = field_result render resp (PStr [])"
      by (rule resp_text_returned)
    then show "resp_text render resp = Inr (Str [])"
      by (simp add: field_result_def strip_def lstrip_def rstrip_def)
  qed
  have b5: "\<forall>kvs cs ckvs t.
       resp = PDict kvs \<and> map_of kvs ''choices'' = Some cs \<and> index0 cs = Inr (PDict ckvs)
       \<and> (map_of ckvs ''message'' = None
            \<or> (\<exists>m. map_of ckvs ''message'' = Some m \<and> \<not> is_dict m))
       \<and> map_of ckvs ''text'' = Some t
       \<longrightarrow> resp_text render resp = field_result render resp t"
  proof (intro allI impI)
    fix kvs cs ckvs t
    assume h: "resp = PDict kvs \<and> map_of kvs ''choices'' = Some cs
       \<and> index0 cs = Inr (PDict ckvs)
       \<and> (map_of ckvs ''message'' = None
            \<or> (\<exists>m. map_of ckvs ''message'' = Some m \<and> \<not> is_dict m))
       \<and> map_of ckvs ''text'' = Some t"
    then have "dict_choices resp = call_strip t"
      by (auto simp: dict_choices_def is_dict_def)
    with h have "resp_try resp = call_strip t"
      by (intro resp_try_dict) (simp_all add: attr_choices_dict)
    then show "resp_text render resp = field_result render resp t"
      by (rule resp_text_returned)
  qed
  have b6: "\<forall>kvs cs ckvs.
       resp = PDict kvs \<and> map_of kvs ''choices'' = Some cs \<and> index0 cs = Inr (PDict ckvs)
       \<and> (map_of ckvs ''message'' = None
            \<or> (\<exists>m. map_of ckvs ''message'' = Some m \<and> \<not> is_dict m))
       \<and> map_of ckvs ''text'' = None
       \<longrightarrow> resp_text render resp = str_strip render resp"
  proof (intro allI impI)
    fix kvs cs ckvs
    assume h: "resp = PDict kvs \<and> map_of kvs ''choices'' = Some cs
       \<and> index0 cs = Inr (PDict ckvs)
       \<and> (map_of ckvs ''message'' = None
            \<or> (\<exists>m. map_of ckvs ''message'' = Some m \<and> \<not> is_dict m))
       \<and> map_of ckvs ''text'' = None"
    then have "dict_choices resp = Inr None"
      by (auto simp: dict_choices_def is_dict_def)
    with h have "resp_try resp = Inr None"
      by (simp add: resp_try_def attr_choices_dict attr_content_dict)
    then show "resp_text render resp = str_strip render resp" by (rule resp_text_fell)
  qed
  have c: "(attr resp ''choices'' = None \<or> (\<exists>cs. attr resp ''choices'' = Some cs \<and> \<not> truthy cs))
       \<and> \<not> is_dict resp
       \<longrightarrow> resp_text render resp =
             (case attr resp ''content'' of
                Some c \<Rightarrow> field_result render resp c
              | None \<Rightarrow> str_strip render resp)"
  proof
    assume h: "(attr resp ''choices'' = None
                \<or> (\<exists>cs. attr resp ''choices'' = Some cs \<and> \<not> truthy cs))
       \<and> \<not> is_dict resp"
    then have "attr_choices resp = Inr None" "dict_choices resp = Inr None"
      by (auto simp: attr_choices_def dict_choices_def)
    then have "resp_try resp = attr_content resp"
      by (simp add: resp_try_def)
    then show "resp_text render resp =
             (case attr resp ''content'' of
                Some c \<Rightarrow> field_result render resp c
              | None \<Rightarrow> str_strip render resp)"
      by (rule resp_text_top)
  qed
  have f: "\<forall>s. field_result render resp (PStr s) = Inr (Str (strip s))"
    by (simp add: field_result_def)
  have g: "\<forall>c. call_strip c = Inl AttributeError \<longrightarrow>
         field_result render resp c = str_strip render resp"
  proof (intro allI impI)
    fix c assume "call_strip c = Inl AttributeError"
    then show "field_result render resp c = str_strip render resp"
      by (cases c) (simp_all add: field_result_def)
  qed
  have k: "\<forall>c. call_strip c = Inl AttributeError \<longleftrightarrow>
         (case c of PStr s \<Rightarrow> False | PBytes b \<Rightarrow> False | _ \<Rightarrow> True)"
  proof
    fix c show "call_strip c = Inl AttributeError \<longleftrightarrow>
         (case c of PStr s \<Rightarrow> False | PBytes b \<Rightarrow> False | _ \<Rightarrow> True)"
      by (cases c) simp_all
  qed
  have d: "str_strip render resp =
        (case py_str render resp of Inl e \<Rightarrow> Inl e | Inr s \<Rightarrow> Inr (Str (strip s)))"
    by (simp add: str_strip_def)
  from a1 a2 a3 a4 b0 b1 b2 b3 b4 b5 b6 c f g k d show ?thesis
    by (intro conjI)
qed

theorem resp_text_fallback_order_witness:
  "resp_text render_kind resp_bad_choices = Inr (Str ''<object>'')
   \<and> resp_text render_kind resp_message = Inr (Str ''Covered.'')
   \<and> resp_text render_kind resp_flat = Inr (Str ''flat'')
   \<and> resp_text render_kind resp_bare = Inr (Str ''top'')
   \<and> resp_text render_kind resp_dict_other = Inr (Str ''{...}'')
   \<and> resp_text render_kind resp_empty_choices = Inr (Str ''{...}'')
   \<and> resp_text render_kind resp_dict_word = Inr (Str ''{...}'')
   \<and> resp_text render_kind resp_dict = Inr (Str ''Hi there'')
   \<and> resp_text render_kind resp_no_content_dict = Inr (Str [])
   \<and> resp_text render_kind resp_dict_flat = Inr (Str ''flat'')
   \<and> resp_text render_kind resp_dict_bare = Inr (Str ''{...}'')
   \<and> resp_text render_kind resp_top = Inr (Str ''top'')
   \<and> resp_text render_kind resp_plain = Inr (Str ''plain text'')"
proof -
  note order = resp_text_fallback_order
  have "attr resp_bad_choices ''choices'' = Some (PInt 7) \<and> truthy (PInt 7)
        \<and> index0 (PInt 7) = Inl TypeError"
    by (simp add: resp_bad_choices_def is_dict_def)
  from order [of resp_bad_choices render_kind, THEN conjunct1, rule_format, OF this]
  have "resp_text render_kind resp_bad_choices =
          str_strip render_kind resp_bad_choices" .
  moreover have "str_strip render_kind resp_bad_choices
        = Inr (Str ''<object>'')"
    by code_simp
  ultimately have a1: "resp_text render_kind resp_bad_choices = Inr (Str ''<object>'')"
    by (rule trans)
  have "attr resp_message ''choices''
          = Some (PList [PObj [(''message'', PObj [(''content'', PStr '' Covered. '')]),
                               (''text'', PStr ''flat'')]])
        \<and> truthy (PList [PObj [(''message'', PObj [(''content'', PStr '' Covered. '')]),
                               (''text'', PStr ''flat'')]])
        \<and> index0 (PList [PObj [(''message'', PObj [(''content'', PStr '' Covered. '')]),
                               (''text'', PStr ''flat'')]])
          = Inr (PObj [(''message'', PObj [(''content'', PStr '' Covered. '')]),
                       (''text'', PStr ''flat'')])
        \<and> attr (PObj [(''message'', PObj [(''content'', PStr '' Covered. '')]),
                      (''text'', PStr ''flat'')]) ''message''
          = Some (PObj [(''content'', PStr '' Covered. '')])
        \<and> attr (PObj [(''content'', PStr '' Covered. '')]) ''content''
          = Some (PStr '' Covered. '')"
    by (simp add: resp_message_def is_dict_def)
  from order [of resp_message render_kind, THEN conjunct2, THEN conjunct1, rule_format, OF this]
  have "resp_text render_kind resp_message =
          field_result render_kind resp_message (PStr '' Covered. '')" .
  moreover have "field_result render_kind resp_message (PStr '' Covered. '')
        = Inr (Str ''Covered.'')"
    by code_simp
  ultimately have a2: "resp_text render_kind resp_message = Inr (Str ''Covered.'')"
    by (rule trans)
  have "attr resp_flat ''choices'' = Some (PList [PObj [(''text'', PStr ''flat '')]])
        \<and> truthy (PList [PObj [(''text'', PStr ''flat '')]])
        \<and> index0 (PList [PObj [(''text'', PStr ''flat '')]])
          = Inr (PObj [(''text'', PStr ''flat '')])
        \<and> (attr (PObj [(''text'', PStr ''flat '')]) ''message'' = None
            \<or> (\<exists>m. attr (PObj [(''text'', PStr ''flat '')]) ''message'' = Some m
                     \<and> attr m ''content'' = None))
        \<and> attr (PObj [(''text'', PStr ''flat '')]) ''text'' = Some (PStr ''flat '')"
    by (simp add: resp_flat_def is_dict_def)
  from order [of resp_flat render_kind, THEN conjunct2, THEN conjunct2, THEN conjunct1, rule_format, OF this]
  have "resp_text render_kind resp_flat =
          field_result render_kind resp_flat (PStr ''flat '')" .
  moreover have "field_result render_kind resp_flat (PStr ''flat '')
        = Inr (Str ''flat'')"
    by code_simp
  ultimately have a3: "resp_text render_kind resp_flat = Inr (Str ''flat'')"
    by (rule trans)
  have "attr resp_bare ''choices'' = Some (PList [PObj [(''index'', PInt 0)]])
        \<and> truthy (PList [PObj [(''index'', PInt 0)]])
        \<and> index0 (PList [PObj [(''index'', PInt 0)]]) = Inr (PObj [(''index'', PInt 0)])
        \<and> (attr (PObj [(''index'', PInt 0)]) ''message'' = None
            \<or> (\<exists>m. attr (PObj [(''index'', PInt 0)]) ''message'' = Some m
                     \<and> attr m ''content'' = None))
        \<and> attr (PObj [(''index'', PInt 0)]) ''text'' = None"
    by (simp add: resp_bare_def is_dict_def)
  from order [of resp_bare render_kind, THEN conjunct2, THEN conjunct2, THEN conjunct2, THEN conjunct1, rule_format, OF this]
  have "resp_text render_kind resp_bare =
          (case attr resp_bare ''content'' of
             Some c \<Rightarrow> field_result render_kind resp_bare c
           | None \<Rightarrow> str_strip render_kind resp_bare)" .
  moreover have "(case attr resp_bare ''content'' of
             Some c \<Rightarrow> field_result render_kind resp_bare c
           | None \<Rightarrow> str_strip render_kind resp_bare)
        = Inr (Str ''top'')"
    by code_simp
  ultimately have a4: "resp_text render_kind resp_bare = Inr (Str ''top'')"
    by (rule trans)
  have "resp_dict_other = PDict [(''answer'', PStr ''Covered.'')]
        \<and> map_of [(''answer'', PStr ''Covered.'')] ''choices'' = None"
    by (simp add: resp_dict_other_def is_dict_def)
  from order [of resp_dict_other render_kind, THEN conjunct2, THEN conjunct2, THEN conjunct2, THEN conjunct2, THEN conjunct1, rule_format, OF this]
  have "resp_text render_kind resp_dict_other =
          str_strip render_kind resp_dict_other" .
  moreover have "str_strip render_kind resp_dict_other
        = Inr (Str ''{...}'')"
    by code_simp
  ultimately have b0: "resp_text render_kind resp_dict_other = Inr (Str ''{...}'')"
    by (rule trans)
  have "resp_empty_choices = PDict [(''choices'', PList [])]
        \<and> map_of [(''choices'', PList [])] ''choices'' = Some (PList [])
        \<and> index0 (PList []) = Inl IndexError"
    by (simp add: resp_empty_choices_def is_dict_def)
  from order [of resp_empty_choices render_kind, THEN conjunct2, THEN conjunct2, THEN conjunct2, THEN conjunct2, THEN conjunct2, THEN conjunct1, rule_format, OF this]
  have "resp_text render_kind resp_empty_choices =
          str_strip render_kind resp_empty_choices" .
  moreover have "str_strip render_kind resp_empty_choices
        = Inr (Str ''{...}'')"
    by code_simp
  ultimately have b1: "resp_text render_kind resp_empty_choices = Inr (Str ''{...}'')"
    by (rule trans)
  have "resp_dict_word = PDict [(''choices'', PList [PStr ''message'']), (''content'', PStr ''top'')]
        \<and> map_of [(''choices'', PList [PStr ''message'']), (''content'', PStr ''top'')] ''choices''
          = Some (PList [PStr ''message''])
        \<and> index0 (PList [PStr ''message'']) = Inr (PStr ''message'')
        \<and> \<not> is_dict (PStr ''message'')"
    by (simp add: resp_dict_word_def is_dict_def)
  from order [of resp_dict_word render_kind, THEN conjunct2, THEN conjunct2, THEN conjunct2, THEN conjunct2, THEN conjunct2, THEN conjunct2, THEN conjunct1, rule_format, OF this]
  have "resp_text render_kind resp_dict_word =
          str_strip render_kind resp_dict_word" .
  moreover have "str_strip render_kind resp_dict_word
        = Inr (Str ''{...}'')"
    by code_simp
  ultimately have b2: "resp_text render_kind resp_dict_word = Inr (Str ''{...}'')"
    by (rule trans)
  have "resp_dict = PDict [(''choices'',
             PList [PDict [(''message'', PDict [(''content'', PStr ''Hi there '')])]])]
        \<and> map_of [(''choices'',
             PList [PDict [(''message'', PDict [(''content'', PStr ''Hi there '')])]])] ''choices''
          = Some (PList [PDict [(''message'', PDict [(''content'', PStr ''Hi there '')])]])
        \<and> index0 (PList [PDict [(''message'', PDict [(''content'', PStr ''Hi there '')])]])
          = Inr (PDict [(''message'', PDict [(''content'', PStr ''Hi there '')])])
        \<and> map_of [(''message'', PDict [(''content'', PStr ''Hi there '')])] ''message''
          = Some (PDict [(''content'', PStr ''Hi there '')])
        \<and> map_of [(''content'', PStr ''Hi there '')] ''content'' = Some (PStr ''Hi there '')"
    by (simp add: resp_dict_def is_dict_def)
  from order [of resp_dict render_kind, THEN conjunct2, THEN conjunct2, THEN conjunct2, THEN conjunct2, THEN conjunct2, THEN conjunct2, THEN conjunct2, THEN conjunct1, rule_format, OF this]
  have "resp_text render_kind resp_dict =
          field_result render_kind resp_dict (PStr ''Hi there '')" .
  moreover have "field_result render_kind resp_dict (PStr ''Hi there '')
        = Inr (Str ''Hi there'')"
    by code_simp
  ultimately have b3: "resp_text render_kind resp_dict = Inr (Str ''Hi there'')"
    by (rule trans)
  have "resp_no_content_dict
          = PDict [(''choices'',
                    PList [PDict [(''message'', PDict []), (''text'', PStr ''hello'')]])]
        \<and> map_of [(''choices'',
                    PList [PDict [(''message'', PDict []), (''text'', PStr ''hello'')]])] ''choices''
          = Some (PList [PDict [(''message'', PDict []), (''text'', PStr ''hello'')]])
        \<and> index0 (PList [PDict [(''message'', PDict []), (''text'', PStr ''hello'')]])
          = Inr (PDict [(''message'', PDict []), (''text'', PStr ''hello'')])
        \<and> map_of [(''message'', PDict []), (''text'', PStr ''hello'')] ''message''
          = Some (PDict [])
        \<and> map_of ([] :: (string \<times> pyval) list) ''content'' = None"
    by (simp add: resp_no_content_dict_def is_dict_def)
  from order [of resp_no_content_dict render_kind, THEN conjunct2, THEN conjunct2, THEN conjunct2, THEN conjunct2, THEN conjunct2, THEN conjunct2, THEN conjunct2, THEN conjunct2, THEN conjunct1, rule_format, OF this]
  have b4: "resp_text render_kind resp_no_content_dict = Inr (Str [])" .
  have "resp_dict_flat = PDict [(''choices'', PList [PDict [(''text'', PStr '' flat'')]])]
        \<and> map_of [(''choices'', PList [PDict [(''text'', PStr '' flat'')]])] ''choices''
          = Some (PList [PDict [(''text'', PStr '' flat'')]])
        \<and> index0 (PList [PDict [(''text'', PStr '' flat'')]])
          = Inr (PDict [(''text'', PStr '' flat'')])
        \<and> (map_of [(''text'', PStr '' flat'')] ''message'' = None
            \<or> (\<exists>m. map_of [(''text'', PStr '' flat'')] ''message'' = Some m \<and> \<not> is_dict m))
        \<and> map_of [(''text'', PStr '' flat'')] ''text'' = Some (PStr '' flat'')"
    by (simp add: resp_dict_flat_def is_dict_def)
  from order [of resp_dict_flat render_kind, THEN conjunct2, THEN conjunct2, THEN conjunct2, THEN conjunct2, THEN conjunct2, THEN conjunct2, THEN conjunct2, THEN conjunct2, THEN conjunct2, THEN conjunct1, rule_format, OF this]
  have "resp_text render_kind resp_dict_flat =
          field_result render_kind resp_dict_flat (PStr '' flat'')" .
  moreover have "field_result render_kind resp_dict_flat (PStr '' flat'')
        = Inr (Str ''flat'')"
    by code_simp
  ultimately have b5: "resp_text render_kind resp_dict_flat = Inr (Str ''flat'')"
    by (rule trans)
  have "resp_dict_bare = PDict [(''choices'', PList [PDict [(''index'', PInt 0)]])]
        \<and> map_of [(''choices'', PList [PDict [(''index'', PInt 0)]])] ''choices''
          = Some (PList [PDict [(''index'', PInt 0)]])
        \<and> index0 (PList [PDict [(''index'', PInt 0)]]) = Inr (PDict [(''index'', PInt 0)])
        \<and> (map_of [(''index'', PInt 0)] ''message'' = None
            \<or> (\<exists>m. map_of [(''index'', PInt 0)] ''message'' = Some m \<and> \<not> is_dict m))
        \<and> map_of [(''index'', PInt 0)] ''text'' = None"
    by (simp add: resp_dict_bare_def is_dict_def)
  from order [of resp_dict_bare render_kind, THEN conjunct2, THEN conjunct2, THEN conjunct2, THEN conjunct2, THEN conjunct2, THEN conjunct2, THEN conjunct2, THEN conjunct2, THEN conjunct2, THEN conjunct2, THEN conjunct1, rule_format, OF this]
  have "resp_text render_kind resp_dict_bare =
          str_strip render_kind resp_dict_bare" .
  moreover have "str_strip render_kind resp_dict_bare
        = Inr (Str ''{...}'')"
    by code_simp
  ultimately have b6: "resp_text render_kind resp_dict_bare = Inr (Str ''{...}'')"
    by (rule trans)
  have "(attr resp_top ''choices'' = None
         \<or> (\<exists>cs. attr resp_top ''choices'' = Some cs \<and> \<not> truthy cs))
        \<and> \<not> is_dict resp_top"
    by (simp add: resp_top_def is_dict_def)
  from order [of resp_top render_kind, THEN conjunct2, THEN conjunct2, THEN conjunct2, THEN conjunct2, THEN conjunct2, THEN conjunct2, THEN conjunct2, THEN conjunct2, THEN conjunct2, THEN conjunct2, THEN conjunct2, THEN conjunct1, THEN mp, OF this]
  have "resp_text render_kind resp_top =
          (case attr resp_top ''content'' of
             Some c \<Rightarrow> field_result render_kind resp_top c
           | None \<Rightarrow> str_strip render_kind resp_top)" .
  moreover have "(case attr resp_top ''content'' of
             Some c \<Rightarrow> field_result render_kind resp_top c
           | None \<Rightarrow> str_strip render_kind resp_top)
        = Inr (Str ''top'')"
    by code_simp
  ultimately have c1: "resp_text render_kind resp_top = Inr (Str ''top'')"
    by (rule trans)
  have "(attr resp_plain ''choices'' = None
         \<or> (\<exists>cs. attr resp_plain ''choices'' = Some cs \<and> \<not> truthy cs))
        \<and> \<not> is_dict resp_plain"
    by (simp add: resp_plain_def is_dict_def)
  from order [of resp_plain render_kind, THEN conjunct2, THEN conjunct2, THEN conjunct2, THEN conjunct2, THEN conjunct2, THEN conjunct2, THEN conjunct2, THEN conjunct2, THEN conjunct2, THEN conjunct2, THEN conjunct2, THEN conjunct1, THEN mp, OF this]
  have "resp_text render_kind resp_plain =
          (case attr resp_plain ''content'' of
             Some c \<Rightarrow> field_result render_kind resp_plain c
           | None \<Rightarrow> str_strip render_kind resp_plain)" .
  moreover have "(case attr resp_plain ''content'' of
             Some c \<Rightarrow> field_result render_kind resp_plain c
           | None \<Rightarrow> str_strip render_kind resp_plain)
        = Inr (Str ''plain text'')"
    by code_simp
  ultimately have c2: "resp_text render_kind resp_plain = Inr (Str ''plain text'')"
    by (rule trans)
  from a1 a2 a3 a4 b0 b1 b2 b3 b4 b5 b6 c1 c2 show ?thesis
    by (intro conjI)
qed

section \<open>Properties of the conversation manager\<close>

lemma refresh_system_eq:
  "refresh_system msg history = \<lparr>role = ''system'', content = Text msg\<rparr> # prior_turns history"
  by (cases history) (auto simp: refresh_system_def prior_turns_def)

lemma prior_turns_system:
  "prior_turns (\<lparr>role = ''system'', content = c\<rparr> # rest) = rest"
  by (simp add: prior_turns_def)

lemma chat_with_history_ok:
  assumes "chat_client (\<lparr>role = ''system'',
                         content = Text (system_msg prompt (dumps policy) bill)\<rparr>
                        # prior_turns history @ [\<lparr>role = ''user'', content = Text user\<rparr>])
           = Inr resp"
    and "resp_text render resp = Inr reply"
  shows "chat_with_history prompt dumps render chat_client history calls policy bill user
         = (\<lparr>role = ''system'', content = Text (system_msg prompt (dumps policy) bill)\<rparr>
              # prior_turns history
              @ [\<lparr>role = ''user'', content = Text user\<rparr>,
                 \<lparr>role = ''assistant'', content = reply_content reply\<rparr>],
            calls @ [\<lparr>role = ''system'',
                      content = Text (system_msg prompt (dumps policy) bill)\<rparr>
                     # prior_turns history @ [\<lparr>role = ''user'', content = Text user\<rparr>]],
            Inr reply)"
  using assms by (simp add: chat_with_history_def refresh_system_eq Let_def)

lemma history_after_send:
  "\<exists>rest. fst (chat_with_history prompt dumps render chat_client history calls policy bill user)
     = \<lparr>role = ''system'', content = Text (system_msg prompt (dumps policy) bill)\<rparr> # rest"
  by (auto simp: chat_with_history_def refresh_system_eq Let_def split: sum.splits)

text \<open>
  C7. One call of \<open>chat_with_history\<close> whose chat invocation succeeds leaves the
  history as: the system message rebuilt from the current policy and bill text at
  position 0 (inserted when the history was empty or did not start with a system
  message, its content overwritten otherwise), the prior turns unchanged and in their
  order, one user message with the given text, one assistant message with the
  normalized reply (a text, or a byte string that \<open>_resp_text\<close> returned, as it is);
  it returns that reply. The content of message 0 is the prompt, the
  line \<open>POLICY:\<close> with the JSON text of the current policy and the line \<open>BILL:\<close> with
  the current bill text. The invocation receives that history up to the user message.
  In two calls in a row with different bill texts, the two invocations receive
  different message-0 contents, and the turns of the first call stay in place.
\<close>

theorem chat_with_history_turn:
  assumes "chat_client
             (\<lparr>role = ''system'',
               content = Text (prompt @ [NL, NL] @ ''POLICY:'' @ [NL] @ dumps policy
                                 @ [NL, NL] @ ''BILL:'' @ [NL] @ b1 @ [NL])\<rparr>
              # prior_turns history @ [\<lparr>role = ''user'', content = Text u1\<rparr>])
           = Inr resp1"
    and "resp_text render resp1 = Inr r1"
    and "chat_client
             (\<lparr>role = ''system'',
               content = Text (prompt @ [NL, NL] @ ''POLICY:'' @ [NL] @ dumps policy
                                 @ [NL, NL] @ ''BILL:'' @ [NL] @ b2 @ [NL])\<rparr>
              # prior_turns history
              @ [\<lparr>role = ''user'', content = Text u1\<rparr>,
                 \<lparr>role = ''assistant'', content = reply_content r1\<rparr>,
                 \<lparr>role = ''user'', content = Text u2\<rparr>])
           = Inr resp2"
    and "resp_text render resp2 = Inr r2"
    and "b1 \<noteq> b2"
  shows "\<exists>ctx1 ctx2 h1 calls1 req1 req2.
           ctx1 = prompt @ [NL, NL] @ ''POLICY:'' @ [NL] @ dumps policy
                    @ [NL, NL] @ ''BILL:'' @ [NL] @ b1 @ [NL]
         \<and> ctx2 = prompt @ [NL, NL] @ ''POLICY:'' @ [NL] @ dumps policy
                    @ [NL, NL] @ ''BILL:'' @ [NL] @ b2 @ [NL]
         \<and> chat_with_history prompt dumps render chat_client history calls policy b1 u1
             = (h1, calls1, Inr r1)
         \<and> h1 = \<lparr>role = ''system'', content = Text ctx1\<rparr>
                  # prior_turns history
                  @ [\<lparr>role = ''user'', content = Text u1\<rparr>,
                     \<lparr>role = ''assistant'', content = reply_content r1\<rparr>]
         \<and> (history = [] \<or> role (hd history) = ''system'' \<or> prior_turns history = history)
         \<and> (history \<noteq> [] \<and> role (hd history) = ''system''
              \<longrightarrow> prior_turns history = tl history \<and> length h1 = length history + 2)
         \<and> calls1 = calls @ [req1]
         \<and> req1 = \<lparr>role = ''system'', content = Text ctx1\<rparr>
                    # prior_turns history @ [\<lparr>role = ''user'', content = Text u1\<rparr>]
         \<and> chat_with_history prompt dumps render chat_client h1 calls1 policy b2 u2
             = (\<lparr>role = ''system'', content = Text ctx2\<rparr>
                  # prior_turns history
                  @ [\<lparr>role = ''user'', content = Text u1\<rparr>,
                     \<lparr>role = ''assistant'', content = reply_content r1\<rparr>,
                     \<lparr>role = ''user'', content = Text u2\<rparr>,
                     \<lparr>role = ''assistant'', content = reply_content r2\<rparr>],
                calls @ [req1, req2], Inr r2)
         \<and> req2 = \<lparr>role = ''system'', content = Text ctx2\<rparr>
                    # prior_turns history
                    @ [\<lparr>role = ''user'', content = Text u1\<rparr>,
                       \<lparr>role = ''assistant'', content = reply_content r1\<rparr>,
                       \<lparr>role = ''user'', content = Text u2\<rparr>]
         \<and> content (hd req1) \<noteq> content (hd req2)
         \<and> tl req2 = tl req1 @ [\<lparr>role = ''assistant'', content = reply_content r1\<rparr>,
                                  \<lparr>role = ''user'', content = Text u2\<rparr>]
         \<and> (\<forall>s. reply_content (Str s) = Text s)
         \<and> (\<forall>b. reply_content (Bytes b) = BytesText b)"
proof -
  let ?ctx1 = "prompt @ [NL, NL] @ ''POLICY:'' @ [NL] @ dumps policy
                 @ [NL, NL] @ ''BILL:'' @ [NL] @ b1 @ [NL]"
  let ?ctx2 = "prompt @ [NL, NL] @ ''POLICY:'' @ [NL] @ dumps policy
                 @ [NL, NL] @ ''BILL:'' @ [NL] @ b2 @ [NL]"
  have c1: "system_msg prompt (dumps policy) b1 = ?ctx1"
    and c2: "system_msg prompt (dumps policy) b2 = ?ctx2"
    by (simp_all add: system_msg_def)
  let ?sys1 = "\<lparr>role = ''system'', content = Text ?ctx1\<rparr>"
  let ?sys2 = "\<lparr>role = ''system'', content = Text ?ctx2\<rparr>"
  let ?u1 = "\<lparr>role = ''user'', content = Text u1\<rparr>"
  let ?a1 = "\<lparr>role = ''assistant'', content = reply_content r1\<rparr>"
  let ?u2 = "\<lparr>role = ''user'', content = Text u2\<rparr>"
  let ?h1 = "?sys1 # prior_turns history @ [?u1, ?a1]"
  let ?req1 = "?sys1 # prior_turns history @ [?u1]"
  let ?req2 = "?sys2 # prior_turns history @ [?u1, ?a1, ?u2]"
  have first: "chat_with_history prompt dumps render chat_client history calls policy b1 u1
               = (?h1, calls @ [?req1], Inr r1)"
    using assms(1,2) chat_with_history_ok [of chat_client prompt dumps policy b1 history u1]
    unfolding c1 by simp
  have "chat_client (?sys2 # prior_turns ?h1 @ [?u2]) = Inr resp2"
    using assms(3) by (simp add: prior_turns_system)
  then have "chat_with_history prompt dumps render chat_client ?h1 (calls @ [?req1]) policy b2 u2
        = (?sys2 # prior_turns ?h1 @ [?u2, \<lparr>role = ''assistant'', content = reply_content r2\<rparr>],
           (calls @ [?req1]) @ [?sys2 # prior_turns ?h1 @ [?u2]], Inr r2)"
    using assms(4) chat_with_history_ok [of chat_client prompt dumps policy b2 ?h1 u2]
    unfolding c2 by simp
  then have second:
    "chat_with_history prompt dumps render chat_client ?h1 (calls @ [?req1]) policy b2 u2
        = (?sys2 # prior_turns history
             @ [?u1, ?a1, ?u2, \<lparr>role = ''assistant'', content = reply_content r2\<rparr>],
           calls @ [?req1, ?req2], Inr r2)"
    by (simp add: prior_turns_system)
  have differ: "content (hd ?req1) \<noteq> content (hd ?req2)"
    using assms(5) by simp
  have shape: "history = [] \<or> role (hd history) = ''system'' \<or> prior_turns history = history"
    by (simp add: prior_turns_def)
  have active: "history \<noteq> [] \<and> role (hd history) = ''system''
              \<longrightarrow> prior_turns history = tl history \<and> length ?h1 = length history + 2"
    by (cases history) (auto simp: prior_turns_def)
  show ?thesis
    apply (rule exI [of _ ?ctx1], rule exI [of _ ?ctx2])
    apply (rule exI [of _ ?h1], rule exI [of _ "calls @ [?req1]"])
    apply (rule exI [of _ ?req1], rule exI [of _ ?req2])
    using first second differ shape active by simp
qed

text \<open>
  C8, as the claim states it, fails. In the session below a question is sent with the
  bill text \<open>Total: 500.00\<close>, and then the Clear button empties the bill text. The
  history is not empty, and its element 0 still holds the context built from the old
  bill text, which is not the current system context.
\<close>

theorem history_inv_stale_counterexample:
  "chat_history (clear_bill (fst (send_chat sample_prompt sample_dumps render_kind reply_client
                                    ''gold'' sample_session [])))
     = [\<lparr>role = ''system'',
          content = Text (sample_prompt @ [NL, NL] @ ''POLICY:'' @ [NL] @ sample_dumps ''gold''
                            @ [NL, NL] @ ''BILL:'' @ [NL] @ ''Total: 500.00'' @ [NL])\<rparr>,
        \<lparr>role = ''user'', content = Text ''Am I covered?''\<rparr>,
        \<lparr>role = ''assistant'', content = Text ''reply 2''\<rparr>]
   \<and> bill_text (clear_bill (fst (send_chat sample_prompt sample_dumps render_kind reply_client
                                    ''gold'' sample_session []))) = []
   \<and> \<not> history_inv (sample_prompt @ [NL, NL] @ ''POLICY:'' @ [NL] @ sample_dumps ''gold''
                       @ [NL, NL] @ ''BILL:'' @ [NL] @ [] @ [NL])
         (chat_history (clear_bill (fst (send_chat sample_prompt sample_dumps render_kind
                                           reply_client ''gold'' sample_session []))))"
  by code_simp

text \<open>
  C8, amended. Whatever the starting history and whether the invocation succeeds or
  raises, the history that \<open>chat_with_history\<close> leaves is not empty and starts with a
  system message holding the context built from the policy and the bill text of that
  call: the prompt, the line \<open>POLICY:\<close> with the JSON text of the policy and the line
  \<open>BILL:\<close> with the bill text. So the invariant holds, for the current context, after
  every send; the Send handler keeps the bill text, and does nothing when the composer
  is blank. After a reset the history is empty and the invariant holds for any
  context. Clearing the bill text and storing an extracted one leave the history as it
  is: element 0 keeps the context of the last send, for which the invariant goes on
  holding, until the next send rebuilds it.
\<close>

theorem history_inv_operations:
  "fst (chat_with_history prompt dumps render chat_client history calls policy bill user) \<noteq> []
   \<and> history_inv (prompt @ [NL, NL] @ ''POLICY:'' @ [NL] @ dumps policy
                    @ [NL, NL] @ ''BILL:'' @ [NL] @ bill @ [NL])
        (fst (chat_with_history prompt dumps render chat_client history calls policy bill user))
   \<and> (strip (composer st) \<noteq> [] \<longrightarrow>
         chat_history (fst (send_chat prompt dumps render chat_client policy st calls)) \<noteq> []
         \<and> history_inv (prompt @ [NL, NL] @ ''POLICY:'' @ [NL] @ dumps policy
                          @ [NL, NL] @ ''BILL:'' @ [NL] @ bill_text st @ [NL])
              (chat_history (fst (send_chat prompt dumps render chat_client policy st calls)))
         \<and> bill_text (fst (send_chat prompt dumps render chat_client policy st calls))
             = bill_text st)
   \<and> (strip (composer st) = [] \<longrightarrow>
         send_chat prompt dumps render chat_client policy st calls = (st, calls))
   \<and> chat_history (reset_chat st) = []
   \<and> history_inv ctx (chat_history (reset_chat st))
   \<and> bill_text (reset_chat st) = bill_text st
   \<and> chat_history (clear_bill st) = chat_history st
   \<and> bill_text (clear_bill st) = []
   \<and> chat_history (store_bill extracted st) = chat_history st
   \<and> (history_inv ctx (chat_history st) \<longrightarrow>
         history_inv ctx (chat_history (clear_bill st))
         \<and> history_inv ctx (chat_history (store_bill extracted st)))
   \<and> (\<forall>h. history_inv ctx h \<longleftrightarrow>
         (h = [] \<or> (role (hd h) = ''system'' \<and> content (hd h) = Text ctx)))"
proof -
  have send: "h \<noteq> [] \<and> history_inv (prompt @ [NL, NL] @ ''POLICY:'' @ [NL] @ dumps policy
                    @ [NL, NL] @ ''BILL:'' @ [NL] @ b @ [NL]) h"
    if "h = fst (chat_with_history prompt dumps render chat_client hs calls policy b user)"
    for h hs b user
  proof -
    from history_after_send [of prompt dumps render chat_client hs calls policy b user] that
    obtain rest where
      "h = \<lparr>role = ''system'', content = Text (system_msg prompt (dumps policy) b)\<rparr> # rest"
      by auto
    then show ?thesis by (simp add: history_inv_def system_msg_def)
  qed
  have handler: "chat_history (fst (send_chat prompt dumps render chat_client policy st calls))
        = fst (chat_with_history prompt dumps render chat_client (chat_history st) calls policy
                 (bill_text st) (strip (composer st)))
      \<and> bill_text (fst (send_chat prompt dumps render chat_client policy st calls))
        = bill_text st"
    if "strip (composer st) \<noteq> []"
    using that by (auto simp: send_chat_def Let_def split: prod.splits sum.splits)
  have blank: "strip (composer st) = [] \<longrightarrow>
         send_chat prompt dumps render chat_client policy st calls = (st, calls)"
    by (simp add: send_chat_def)
  have kept: "chat_history (store_bill extracted st) = chat_history st"
    by (cases extracted) (simp_all add: store_bill_def)
  from send [OF refl] send [OF handler [THEN conjunct1]] handler blank kept show ?thesis
    by (auto simp: reset_chat_def clear_bill_def history_inv_def)
qed

text \<open>
  C10. When the chat invocation raises, the exception leaves \<open>chat_with_history\<close>, and
  the history keeps the rebuilt system message and the new user message: it is one or
  two messages longer than before the call, and no assistant message was added.
\<close>

theorem chat_with_history_not_atomic:
  assumes "chat_client (\<lparr>role = ''system'',
                         content = Text (system_msg prompt (dumps policy) bill)\<rparr>
                        # prior_turns history @ [\<lparr>role = ''user'', content = Text user\<rparr>])
           = Inl e"
  shows "chat_with_history prompt dumps render chat_client history calls policy bill user
         = (\<lparr>role = ''system'', content = Text (system_msg prompt (dumps policy) bill)\<rparr>
              # prior_turns history @ [\<lparr>role = ''user'', content = Text user\<rparr>],
            calls @ [\<lparr>role = ''system'',
                      content = Text (system_msg prompt (dumps policy) bill)\<rparr>
                     # prior_turns history @ [\<lparr>role = ''user'', content = Text user\<rparr>]],
            Inl e)
         \<and> fst (chat_with_history prompt dumps render chat_client history calls policy bill user)
             \<noteq> history
         \<and> length history
             < length (fst (chat_with_history prompt dumps render chat_client history calls
                               policy bill user))"
proof -
  have r: "chat_with_history prompt dumps render chat_client history calls policy bill user
         = (\<lparr>role = ''system'', content = Text (system_msg prompt (dumps policy) bill)\<rparr>
              # prior_turns history @ [\<lparr>role = ''user'', content = Text user\<rparr>],
            calls @ [\<lparr>role = ''system'',
                      content = Text (system_msg prompt (dumps policy) bill)\<rparr>
                     # prior_turns history @ [\<lparr>role = ''user'', content = Text user\<rparr>]],
            Inl e)"
    using assms by (simp add: chat_with_history_def refresh_system_eq Let_def)
  have "length history \<le> Suc (length (prior_turns history))"
    by (cases history) (auto simp: prior_turns_def)
  then have len: "length history
      < length (\<lparr>role = ''system'', content = Text (system_msg prompt (dumps policy) bill)\<rparr>
              # prior_turns history @ [\<lparr>role = ''user'', content = Text user\<rparr>])"
    by simp
  then have ne: "\<lparr>role = ''system'', content = Text (system_msg prompt (dumps policy) bill)\<rparr>
              # prior_turns history @ [\<lparr>role = ''user'', content = Text user\<rparr>] \<noteq> history"
    by (metis less_irrefl)
  from r len ne show ?thesis by (simp only: fst_conv simp_thms)
qed

section \<open>Properties of the policy store\<close>

text \<open>
  C9, as the claim states it, fails. For a path at which there is no file, the
  exception that leaves \<open>load_policy_data\<close> is the \<open>FileNotFoundError\<close> of \<open>open\<close>, and
  for a file whose text is not well-formed JSON it is the \<open>JSONDecodeError\<close> of
  \<open>json.load\<close>; neither is a \<open>DataFormatError\<close>, an error that the program does not
  have.
\<close>

theorem load_policy_data_error_counterexample:
  "load_policy_data sample_open_file sample_json_load ''missing.json'' = Inl FileNotFoundError
   \<and> error_name FileNotFoundError \<noteq> ''DataFormatError''
   \<and> load_policy_data sample_open_file sample_json_load ''broken.json'' = Inl JSONDecodeError
   \<and> error_name JSONDecodeError \<noteq> ''DataFormatError''"
  by code_simp

text \<open>
  C9, amended. Loading the policy catalog fails exactly when opening the source fails
  or parsing it fails, and the exception is the one of that step, which the function
  neither catches nor replaces: \<open>FileNotFoundError\<close> when the source is missing,
  \<open>JSONDecodeError\<close> when its text is not well-formed JSON. When both steps succeed
  the result is the parsed document as it is.
\<close>

theorem load_policy_data_propagates:
  "(\<forall>e. load_policy_data open_file json_load path = Inl e \<longleftrightarrow>
          (open_file path = Inl e \<or> (\<exists>f. open_file path = Inr f \<and> json_load f = Inl e)))
   \<and> (\<forall>v. load_policy_data open_file json_load path = Inr v \<longleftrightarrow>
          (\<exists>f. open_file path = Inr f \<and> json_load f = Inr v))
   \<and> (open_file path = Inl FileNotFoundError \<longrightarrow>
         load_policy_data open_file json_load path = Inl FileNotFoundError)
   \<and> (\<forall>f. open_file path = Inr f \<and> json_load f = Inl JSONDecodeError \<longrightarrow>
         load_policy_data open_file json_load path = Inl JSONDecodeError)"
  by (cases "open_file path") (auto simp: load_policy_data_def)

theorem load_policy_data_propagates_witness:
  "sample_open_file ''missing.json'' = Inl FileNotFoundError
   \<and> load_policy_data sample_open_file sample_json_load ''missing.json'' = Inl FileNotFoundError
   \<and> sample_open_file ''data'' = Inl IsADirectoryError
   \<and> load_policy_data sample_open_file sample_json_load ''data'' = Inl IsADirectoryError
   \<and> sample_open_file ''broken.json'' = Inr ''{'' \<and> sample_json_load ''{'' = Inl JSONDecodeError
   \<and> load_policy_data sample_open_file sample_json_load ''broken.json'' = Inl JSONDecodeError
   \<and> sample_open_file ''latin1.json'' = Inr [CHR 0x22, CHR 0xE9, CHR 0x22]
   \<and> sample_json_load [CHR 0x22, CHR 0xE9, CHR 0x22] = Inl UnicodeDecodeError
   \<and> load_policy_data sample_open_file sample_json_load ''latin1.json'' = Inl UnicodeDecodeError
   \<and> sample_open_file ''policy.json'' = Inr ''{}'' \<and> sample_json_load ''{}'' = Inr (PDict [])
   \<and> load_policy_data sample_open_file sample_json_load ''policy.json'' = Inr (PDict [])"
proof -
  have a: "sample_open_file ''missing.json'' = Inl FileNotFoundError"
    and d: "sample_open_file ''data'' = Inl IsADirectoryError"
    and b: "sample_open_file ''broken.json'' = Inr ''{'' \<and> sample_json_load ''{'' = Inl JSONDecodeError"
    and u: "sample_open_file ''latin1.json'' = Inr [CHR 0x22, CHR 0xE9, CHR 0x22]
            \<and> sample_json_load [CHR 0x22, CHR 0xE9, CHR 0x22] = Inl UnicodeDecodeError"
    and c: "sample_open_file ''policy.json'' = Inr ''{}'' \<and> sample_json_load ''{}'' = Inr (PDict [])"
    by code_simp+
  note t = load_policy_data_propagates [of sample_open_file sample_json_load]
  from a t [of "''missing.json''", THEN conjunct2, THEN conjunct2, THEN conjunct1]
  have ra: "load_policy_data sample_open_file sample_json_load ''missing.json''
            = Inl FileNotFoundError"
    by blast
  from d t [of "''data''", THEN conjunct1]
  have rd: "load_policy_data sample_open_file sample_json_load ''data'' = Inl IsADirectoryError"
    by blast
  from b t [of "''broken.json''", THEN conjunct2, THEN conjunct2, THEN conjunct2]
  have rb: "load_policy_data sample_open_file sample_json_load ''broken.json''
            = Inl JSONDecodeError"
    by blast
  from u t [of "''latin1.json''", THEN conjunct1]
  have ru: "load_policy_data sample_open_file sample_json_load ''latin1.json''
            = Inl UnicodeDecodeError"
    by blast
  from c t [of "''policy.json''", THEN conjunct2, THEN conjunct1]
  have rc: "load_policy_data sample_open_file sample_json_load ''policy.json'' = Inr (PDict [])"
    by blast
  from a ra d rd b rb u ru c rc show ?thesis by blast
qed

theorem chat_with_history_turn_witness:
  "chat_with_history sample_prompt sample_dumps render_kind reply_client [] [] ''gold''
       ''Total: 500.00'' ''Am I covered?''
     = ([\<lparr>role = ''system'', content = Text (sample_prompt @ [NL, NL] @ ''POLICY:'' @ [NL] @ sample_dumps ''gold''
                            @ [NL, NL] @ ''BILL:'' @ [NL] @ ''Total: 500.00'' @ [NL])\<rparr>,
         \<lparr>role = ''user'', content = Text ''Am I covered?''\<rparr>,
         \<lparr>role = ''assistant'', content = Text ''reply 2''\<rparr>],
        [[\<lparr>role = ''system'', content = Text (sample_prompt @ [NL, NL] @ ''POLICY:'' @ [NL] @ sample_dumps ''gold''
                            @ [NL, NL] @ ''BILL:'' @ [NL] @ ''Total: 500.00'' @ [NL])\<rparr>,
          \<lparr>role = ''user'', content = Text ''Am I covered?''\<rparr>]],
        Inr (Str ''reply 2''))
   \<and> chat_with_history sample_prompt sample_dumps render_kind reply_client
       [\<lparr>role = ''system'', content = Text (sample_prompt @ [NL, NL] @ ''POLICY:'' @ [NL] @ sample_dumps ''gold''
                            @ [NL, NL] @ ''BILL:'' @ [NL] @ ''Total: 500.00'' @ [NL])\<rparr>,
        \<lparr>role = ''user'', content = Text ''Am I covered?''\<rparr>,
        \<lparr>role = ''assistant'', content = Text ''reply 2''\<rparr>]
       [[\<lparr>role = ''system'', content = Text (sample_prompt @ [NL, NL] @ ''POLICY:'' @ [NL] @ sample_dumps ''gold''
                            @ [NL, NL] @ ''BILL:'' @ [NL] @ ''Total: 500.00'' @ [NL])\<rparr>,
         \<lparr>role = ''user'', content = Text ''Am I covered?''\<rparr>]]
       ''gold'' ''Net Payable: 450.00'' ''And now?''
     = ([\<lparr>role = ''system'', content = Text (sample_prompt @ [NL, NL] @ ''POLICY:'' @ [NL] @ sample_dumps ''gold''
                            @ [NL, NL] @ ''BILL:'' @ [NL] @ ''Net Payable: 450.00'' @ [NL])\<rparr>,
         \<lparr>role = ''user'', content = Text ''Am I covered?''\<rparr>,
         \<lparr>role = ''assistant'', content = Text ''reply 2''\<rparr>,
         \<lparr>role = ''user'', content = Text ''And now?''\<rparr>,
         \<lparr>role = ''assistant'', content = Text ''reply 4''\<rparr>],
        [[\<lparr>role = ''system'', content = Text (sample_prompt @ [NL, NL] @ ''POLICY:'' @ [NL] @ sample_dumps ''gold''
                            @ [NL, NL] @ ''BILL:'' @ [NL] @ ''Total: 500.00'' @ [NL])\<rparr>,
          \<lparr>role = ''user'', content = Text ''Am I covered?''\<rparr>],
         [\<lparr>role = ''system'', content = Text (sample_prompt @ [NL, NL] @ ''POLICY:'' @ [NL] @ sample_dumps ''gold''
                            @ [NL, NL] @ ''BILL:'' @ [NL] @ ''Net Payable: 450.00'' @ [NL])\<rparr>,
          \<lparr>role = ''user'', content = Text ''Am I covered?''\<rparr>,
          \<lparr>role = ''assistant'', content = Text ''reply 2''\<rparr>,
          \<lparr>role = ''user'', content = Text ''And now?''\<rparr>]],
        Inr (Str ''reply 4''))
   \<and> Text (sample_prompt @ [NL, NL] @ ''POLICY:'' @ [NL] @ sample_dumps ''gold''
                            @ [NL, NL] @ ''BILL:'' @ [NL] @ ''Total: 500.00'' @ [NL])
       \<noteq> Text (sample_prompt @ [NL, NL] @ ''POLICY:'' @ [NL] @ sample_dumps ''gold''
                            @ [NL, NL] @ ''BILL:'' @ [NL] @ ''Net Payable: 450.00'' @ [NL])"
proof -
  let ?ctx1 = "sample_prompt @ [NL, NL] @ ''POLICY:'' @ [NL] @ sample_dumps ''gold''
                            @ [NL, NL] @ ''BILL:'' @ [NL] @ ''Total: 500.00'' @ [NL]"
  let ?ctx2 = "sample_prompt @ [NL, NL] @ ''POLICY:'' @ [NL] @ sample_dumps ''gold''
                            @ [NL, NL] @ ''BILL:'' @ [NL] @ ''Net Payable: 450.00'' @ [NL]"
  have c1: "reply_client (\<lparr>role = ''system'', content = Text ?ctx1\<rparr>
                # prior_turns [] @ [\<lparr>role = ''user'', content = Text ''Am I covered?''\<rparr>])
            = Inr (PObj [(''content'', PStr ''reply 2 '')])"
    by code_simp
  have n1: "resp_text render_kind (PObj [(''content'', PStr ''reply 2 '')])
            = Inr (Str ''reply 2'')"
    by code_simp
  have c2: "reply_client (\<lparr>role = ''system'', content = Text ?ctx2\<rparr>
                # prior_turns []
                @ [\<lparr>role = ''user'', content = Text ''Am I covered?''\<rparr>,
                   \<lparr>role = ''assistant'', content = reply_content (Str ''reply 2'')\<rparr>,
                   \<lparr>role = ''user'', content = Text ''And now?''\<rparr>])
            = Inr (PObj [(''content'', PStr ''reply 4 '')])"
    by code_simp
  have n2: "resp_text render_kind (PObj [(''content'', PStr ''reply 4 '')])
            = Inr (Str ''reply 4'')"
    by code_simp
  have d: "''Total: 500.00'' \<noteq> ''Net Payable: 450.00''" by simp
  have p: "prior_turns ([] :: message list) = []" by (simp add: prior_turns_def)
  from chat_with_history_turn [where chat_client = reply_client and prompt = sample_prompt
      and dumps = sample_dumps and policy = "''gold''" and render = render_kind
      and history = "[]" and calls = "[]"
      and ?b1.0 = "''Total: 500.00''" and ?u1.0 = "''Am I covered?''"
      and ?b2.0 = "''Net Payable: 450.00''" and ?u2.0 = "''And now?''"
      and ?resp1.0 = "PObj [(''content'', PStr ''reply 2 '')]" and ?r1.0 = "Str ''reply 2''"
      and ?resp2.0 = "PObj [(''content'', PStr ''reply 4 '')]" and ?r2.0 = "Str ''reply 4''",
      OF c1 n1 c2 n2 d]
  obtain ctx1 ctx2 h1 calls1 req1 req2 where
      "ctx1 = ?ctx1" and "ctx2 = ?ctx2"
    and "chat_with_history sample_prompt sample_dumps render_kind reply_client [] [] ''gold''
         ''Total: 500.00'' ''Am I covered?'' = (h1, calls1, Inr (Str ''reply 2''))"
    and "h1 = \<lparr>role = ''system'', content = Text ctx1\<rparr> # prior_turns []
              @ [\<lparr>role = ''user'', content = Text ''Am I covered?''\<rparr>,
                 \<lparr>role = ''assistant'', content = reply_content (Str ''reply 2'')\<rparr>]"
    and "calls1 = [] @ [req1]"
    and "req1 = \<lparr>role = ''system'', content = Text ctx1\<rparr> # prior_turns []
              @ [\<lparr>role = ''user'', content = Text ''Am I covered?''\<rparr>]"
    and "chat_with_history sample_prompt sample_dumps render_kind reply_client h1 calls1
           ''gold'' ''Net Payable: 450.00'' ''And now?''
         = (\<lparr>role = ''system'', content = Text ctx2\<rparr> # prior_turns []
              @ [\<lparr>role = ''user'', content = Text ''Am I covered?''\<rparr>,
                 \<lparr>role = ''assistant'', content = reply_content (Str ''reply 2'')\<rparr>,
                 \<lparr>role = ''user'', content = Text ''And now?''\<rparr>,
                 \<lparr>role = ''assistant'', content = reply_content (Str ''reply 4'')\<rparr>],
            [] @ [req1, req2], Inr (Str ''reply 4''))"
    and "req2 = \<lparr>role = ''system'', content = Text ctx2\<rparr> # prior_turns []
              @ [\<lparr>role = ''user'', content = Text ''Am I covered?''\<rparr>,
                 \<lparr>role = ''assistant'', content = reply_content (Str ''reply 2'')\<rparr>,
                 \<lparr>role = ''user'', content = Text ''And now?''\<rparr>]"
    and "content (hd req1) \<noteq> content (hd req2)"
    by blast
  then show ?thesis by (simp add: p)
qed

theorem history_inv_operations_witness:
  "strip (composer sample_session) \<noteq> []
   \<and> chat_history (fst (send_chat sample_prompt sample_dumps render_kind reply_client ''gold''
                           sample_session []))
     \<noteq> []
   \<and> role (hd (chat_history (fst (send_chat sample_prompt sample_dumps render_kind reply_client
                                     ''gold'' sample_session []))))
     = ''system''
   \<and> content (hd (chat_history (fst (send_chat sample_prompt sample_dumps render_kind
                                        reply_client ''gold'' sample_session []))))
     = Text (sample_prompt @ [NL, NL] @ ''POLICY:'' @ [NL] @ sample_dumps ''gold''
                            @ [NL, NL] @ ''BILL:'' @ [NL] @ ''Total: 500.00'' @ [NL])
   \<and> role (hd (chat_history (fst (send_chat sample_prompt sample_dumps render_kind
                                     failing_client ''gold'' sample_session []))))
     = ''system''
   \<and> content (hd (chat_history (fst (send_chat sample_prompt sample_dumps render_kind
                                        failing_client ''gold'' sample_session []))))
     = Text (sample_prompt @ [NL, NL] @ ''POLICY:'' @ [NL] @ sample_dumps ''gold''
                            @ [NL, NL] @ ''BILL:'' @ [NL] @ ''Total: 500.00'' @ [NL])
   \<and> history_inv ''stale context'' [\<lparr>role = ''system'', content = Text ''stale context''\<rparr>]
   \<and> history_inv ''stale context''
        (chat_history (clear_bill \<lparr>chat_history = [\<lparr>role = ''system'',
                                                     content = Text ''stale context''\<rparr>],
                                   bill_text = ''Total: 500.00'', composer = ''hello'',
                                   clear_composer = False\<rparr>))
   \<and> chat_history (reset_chat sample_session) = []"
proof -
  have s: "strip (composer sample_session) \<noteq> []"
    and b: "bill_text sample_session = ''Total: 500.00''"
    by code_simp+
  note t = history_inv_operations [where prompt = sample_prompt and dumps = sample_dumps
      and render = render_kind and policy = "''gold''" and st = sample_session and calls = "[]"]
  from t [where chat_client = reply_client, THEN conjunct2, THEN conjunct2, THEN conjunct1,
      THEN mp, OF s]
  have ok: "chat_history (fst (send_chat sample_prompt sample_dumps render_kind reply_client
                                 ''gold'' sample_session [])) \<noteq> []
      \<and> history_inv (sample_prompt @ [NL, NL] @ ''POLICY:'' @ [NL] @ sample_dumps ''gold''
                       @ [NL, NL] @ ''BILL:'' @ [NL] @ bill_text sample_session @ [NL])
           (chat_history (fst (send_chat sample_prompt sample_dumps render_kind reply_client
                                 ''gold'' sample_session [])))"
    by blast
  from t [where chat_client = failing_client, THEN conjunct2, THEN conjunct2, THEN conjunct1,
      THEN mp, OF s]
  have failed: "chat_history (fst (send_chat sample_prompt sample_dumps render_kind
                                     failing_client ''gold'' sample_session [])) \<noteq> []
      \<and> history_inv (sample_prompt @ [NL, NL] @ ''POLICY:'' @ [NL] @ sample_dumps ''gold''
                       @ [NL, NL] @ ''BILL:'' @ [NL] @ bill_text sample_session @ [NL])
           (chat_history (fst (send_chat sample_prompt sample_dumps render_kind failing_client
                                 ''gold'' sample_session [])))"
    by blast
  have i: "history_inv ''stale context''
             (chat_history \<lparr>chat_history = [\<lparr>role = ''system'',
                                               content = Text ''stale context''\<rparr>],
                            bill_text = ''Total: 500.00'', composer = ''hello'',
                            clear_composer = False\<rparr>)"
    by (simp add: history_inv_def)
  from history_inv_operations [where ctx = "''stale context''"
      and st = "\<lparr>chat_history = [\<lparr>role = ''system'', content = Text ''stale context''\<rparr>],
                 bill_text = ''Total: 500.00'', composer = ''hello'',
                 clear_composer = False\<rparr>", THEN conjunct2, THEN conjunct2, THEN conjunct2,
      THEN conjunct2, THEN conjunct2, THEN conjunct2, THEN conjunct2, THEN conjunct2,
      THEN conjunct2, THEN conjunct2, THEN conjunct1, THEN mp, OF i]
  have kept: "history_inv ''stale context''
        (chat_history (clear_bill \<lparr>chat_history = [\<lparr>role = ''system'',
                                                     content = Text ''stale context''\<rparr>],
                                   bill_text = ''Total: 500.00'', composer = ''hello'',
                                   clear_composer = False\<rparr>))"
    by blast
  from t [where chat_client = reply_client]
  have r: "chat_history (reset_chat sample_session) = []" by blast
  from s ok failed i kept r show ?thesis
    by (simp add: history_inv_def b)
qed

theorem chat_with_history_not_atomic_witness:
  "chat_with_history sample_prompt sample_dumps render_kind failing_client
       [\<lparr>role = ''system'', content = Text ''stale context''\<rparr>,
        \<lparr>role = ''user'', content = Text ''hi''\<rparr>,
        \<lparr>role = ''assistant'', content = Text ''Hi,''\<rparr>]
       [] ''gold'' ''Total: 500.00'' ''Am I covered?''
     = ([\<lparr>role = ''system'',
           content = Text (system_msg sample_prompt (sample_dumps ''gold'') ''Total: 500.00'')\<rparr>,
         \<lparr>role = ''user'', content = Text ''hi''\<rparr>,
         \<lparr>role = ''assistant'', content = Text ''Hi,''\<rparr>,
         \<lparr>role = ''user'', content = Text ''Am I covered?''\<rparr>],
        [[\<lparr>role = ''system'',
            content = Text (system_msg sample_prompt (sample_dumps ''gold'') ''Total: 500.00'')\<rparr>,
          \<lparr>role = ''user'', content = Text ''hi''\<rparr>,
          \<lparr>role = ''assistant'', content = Text ''Hi,''\<rparr>,
          \<lparr>role = ''user'', content = Text ''Am I covered?''\<rparr>]],
        Inl (InvokeError ''connection refused''))"
proof -
  have p: "prior_turns [\<lparr>role = ''system'', content = Text ''stale context''\<rparr>,
        \<lparr>role = ''user'', content = Text ''hi''\<rparr>,
        \<lparr>role = ''assistant'', content = Text ''Hi,''\<rparr>]
      = [\<lparr>role = ''user'', content = Text ''hi''\<rparr>,
         \<lparr>role = ''assistant'', content = Text ''Hi,''\<rparr>]"
    by (simp add: prior_turns_def)
  have f: "failing_client
      (\<lparr>role = ''system'',
         content = Text (system_msg sample_prompt (sample_dumps ''gold'') ''Total: 500.00'')\<rparr>
       # prior_turns [\<lparr>role = ''system'', content = Text ''stale context''\<rparr>,
                      \<lparr>role = ''user'', content = Text ''hi''\<rparr>,
                      \<lparr>role = ''assistant'', content = Text ''Hi,''\<rparr>]
       @ [\<lparr>role = ''user'', content = Text ''Am I covered?''\<rparr>])
     = Inl (InvokeError ''connection refused'')"
    by (simp add: failing_client_def)
  from chat_with_history_not_atomic [where chat_client = failing_client
      and prompt = sample_prompt and dumps = sample_dumps and policy = "''gold''"
      and render = render_kind and calls = "[]" and bill = "''Total: 500.00''"
      and user = "''Am I covered?''" and e = "InvokeError ''connection refused''"
      and history = "[\<lparr>role = ''system'', content = Text ''stale context''\<rparr>,
                      \<lparr>role = ''user'', content = Text ''hi''\<rparr>,
                      \<lparr>role = ''assistant'', content = Text ''Hi,''\<rparr>]", OF f]
  show ?thesis
    by (simp add: p)
qed


section \<open>Properties of the document extraction pipeline\<close>

lemma extract_text_from_image_calls:
  "extract_text_from_image encode render vision_client img calls
   = (calls @ [ocr_messages encode img],
      snd (extract_text_from_image encode render vision_client img []))"
  by (simp add: extract_text_from_image_def Let_def)

lemma str_items_map: "str_items (map Str xs) = Some xs"
  by (induction xs) simp_all

lemma join_pages_map: "join_pages sep (map Str xs) = Inr (py_join sep xs)"
  by (simp add: join_pages_def str_items_map)

lemma pdf_pages_ok:
  "map (page_text encode render vision_client) ps = map (\<lambda>t. Inr (Str t)) texts \<Longrightarrow>
   pdf_pages encode render vision_client ps pages calls
   = (calls @ map (\<lambda>p. ocr_messages encode (page_image p)) (filter needs_ocr ps),
      Inr (pages @ map Str texts))"
proof (induction ps arbitrary: pages calls texts)
  case Nil
  then show ?case by simp
next
  case (Cons p ps)
  from Cons.prems obtain t ts where texts: "texts = t # ts"
    and t: "page_text encode render vision_client p = Inr (Str t)"
    and ts: "map (page_text encode render vision_client) ps = map (\<lambda>t. Inr (Str t)) ts"
    by (cases texts) auto
  show ?case
  proof (cases "needs_ocr p")
    case False
    with t have "t = get_text p" by (simp add: page_text_def needs_ocr_def)
    with False show ?thesis
      using Cons.IH [OF ts, of "pages @ [Str (get_text p)]" calls]
      by (simp add: texts needs_ocr_def Let_def)
  next
    case True
    with t have "snd (extract_text_from_image encode render vision_client (page_image p) [])
                 = Inr (Str t)"
      by (simp add: page_text_def needs_ocr_def)
    then have "extract_text_from_image encode render vision_client (page_image p) calls
               = (calls @ [ocr_messages encode (page_image p)], Inr (Str t))"
      using extract_text_from_image_calls [of encode render vision_client "page_image p" calls]
      by simp
    with True show ?thesis
      using Cons.IH [OF ts, of "pages @ [Str t]" "calls @ [ocr_messages encode (page_image p)]"]
      by (simp add: texts needs_ocr_def Let_def)
  qed
qed

text \<open>
  C6, as the claim states it, fails. The only page of the document below has the
  native text of one newline, which is not empty. The page is sent to the vision
  client all the same, and the result is the reply of the client, not the native
  text.
\<close>

theorem extract_text_from_pdf_newline_counterexample:
  "get_text page_newline \<noteq> []
   \<and> extract_text_from_pdf True newline_open sample_encode render_kind ocr_client ''%PDF-1.7'' []
     = ([ocr_messages sample_encode (page_image page_newline)], Inr ''Net Payable: 450.00'')
   \<and> ''Net Payable: 450.00'' \<noteq> get_text page_newline"
  by code_simp

text \<open>
  C6, amended. For every document that opens, with the rendering capability available
  and every call of the vision client giving a text, the pages are processed one by one
  in page order. A page whose native text has a non-whitespace character contributes
  that text verbatim and triggers no call; a page whose native text is empty or all
  whitespace is rasterized at 200 DPI and sent through \<open>extract_text_from_image\<close>.
  The calls are those of the latter pages, in page order, and the result is the texts
  of the pages in page order, joined by two newlines.
\<close>

theorem extract_text_from_pdf_pages:
  assumes "open_doc file_bytes = Inr doc"
    and "map (page_text encode render vision_client) doc = map (\<lambda>t. Inr (Str t)) texts"
  shows "extract_text_from_pdf True open_doc encode render vision_client file_bytes calls
         = (calls @ map (\<lambda>p. ocr_messages encode (page_image p)) (filter needs_ocr doc),
            Inr (py_join [NL, NL] texts))
       \<and> length texts = length doc
       \<and> (\<forall>i < length doc. \<not> needs_ocr (doc ! i) \<longrightarrow> texts ! i = get_text (doc ! i))
       \<and> (\<forall>i < length doc. needs_ocr (doc ! i) \<longrightarrow>
             extract_text_from_image encode render vision_client
               (image_frombytes ''RGB''
                  (pix_width (get_pixmap (doc ! i) 200), pix_height (get_pixmap (doc ! i) 200))
                  (pix_samples (get_pixmap (doc ! i) 200))) []
             = ([ocr_messages encode (page_image (doc ! i))], Inr (Str (texts ! i))))
       \<and> (\<forall>p. needs_ocr p = (strip (get_text p) = []))
       \<and> (\<forall>t1 t2. py_join [NL, NL] [t1, t2] = t1 @ [NL, NL] @ t2)"
proof -
  have len: "length texts = length doc"
    using assms(2) by (metis length_map)
  have nth: "\<And>i. i < length doc \<Longrightarrow>
      page_text encode render vision_client (doc ! i) = Inr (Str (texts ! i))"
  proof -
    fix i assume i: "i < length doc"
    then have "map (page_text encode render vision_client) doc ! i
               = page_text encode render vision_client (doc ! i)" by simp
    moreover from i len
    have "map (\<lambda>t. Inr (Str t)) texts ! i = (Inr (Str (texts ! i)) :: py_error + strval)"
      by simp
    ultimately show "page_text encode render vision_client (doc ! i) = Inr (Str (texts ! i))"
      using assms(2) by simp
  qed
  have main: "extract_text_from_pdf True open_doc encode render vision_client file_bytes calls
         = (calls @ map (\<lambda>p. ocr_messages encode (page_image p)) (filter needs_ocr doc),
            Inr (py_join [NL, NL] texts))"
    using assms(1) pdf_pages_ok [OF assms(2), of "[]" calls]
    by (simp add: extract_text_from_pdf_def join_pages_map)
  have native: "\<forall>i < length doc. \<not> needs_ocr (doc ! i) \<longrightarrow> texts ! i = get_text (doc ! i)"
  proof (intro allI impI)
    fix i assume i: "i < length doc" and o: "\<not> needs_ocr (doc ! i)"
    from nth [OF i] o show "texts ! i = get_text (doc ! i)"
      by (simp add: page_text_def needs_ocr_def)
  qed
  have ocr: "\<forall>i < length doc. needs_ocr (doc ! i) \<longrightarrow>
             extract_text_from_image encode render vision_client
               (image_frombytes ''RGB''
                  (pix_width (get_pixmap (doc ! i) 200), pix_height (get_pixmap (doc ! i) 200))
                  (pix_samples (get_pixmap (doc ! i) 200))) []
             = ([ocr_messages encode (page_image (doc ! i))], Inr (Str (texts ! i)))"
  proof (intro allI impI)
    fix i assume i: "i < length doc" and o: "needs_ocr (doc ! i)"
    from nth [OF i] o
    have "snd (extract_text_from_image encode render vision_client (page_image (doc ! i)) [])
          = Inr (Str (texts ! i))"
      by (simp add: page_text_def needs_ocr_def)
    then have "extract_text_from_image encode render vision_client (page_image (doc ! i)) []
          = ([ocr_messages encode (page_image (doc ! i))], Inr (Str (texts ! i)))"
      using extract_text_from_image_calls
        [of encode render vision_client "page_image (doc ! i)" "[]"]
      by simp
    then show "extract_text_from_image encode render vision_client
               (image_frombytes ''RGB''
                  (pix_width (get_pixmap (doc ! i) 200), pix_height (get_pixmap (doc ! i) 200))
                  (pix_samples (get_pixmap (doc ! i) 200))) []
             = ([ocr_messages encode (page_image (doc ! i))], Inr (Str (texts ! i)))"
      by (simp add: page_image_def Let_def)
  qed
  from main len native ocr show ?thesis
    by (simp add: needs_ocr_def)
qed

theorem extract_text_from_pdf_pages_witness:
  "sample_open ''%PDF-1.7'' = Inr [page_native, page_scanned]
   \<and> map (page_text sample_encode render_kind ocr_client) [page_native, page_scanned]
     = map (\<lambda>t. Inr (Str t)) [''Total: 500.00'' @ [NL], ''Net Payable: 450.00'']
   \<and> extract_text_from_pdf True sample_open sample_encode render_kind ocr_client ''%PDF-1.7'' []
     = ([ocr_messages sample_encode (page_image page_scanned)],
        Inr (''Total: 500.00'' @ [NL] @ [NL, NL] @ ''Net Payable: 450.00''))
   \<and> needs_ocr page_scanned \<and> \<not> needs_ocr page_native"
proof -
  have o: "sample_open ''%PDF-1.7'' = Inr [page_native, page_scanned]"
    by (simp add: sample_open_def starts_with_def)
  have t: "map (page_text sample_encode render_kind ocr_client) [page_native, page_scanned]
     = map (\<lambda>t. Inr (Str t)) [''Total: 500.00'' @ [NL], ''Net Payable: 450.00'']"
    by code_simp
  have n: "needs_ocr page_scanned" "\<not> needs_ocr page_native"
    by code_simp+
  from extract_text_from_pdf_pages [where open_doc = sample_open
      and file_bytes = "''%PDF-1.7''" and doc = "[page_native, page_scanned]"
      and encode = sample_encode and render = render_kind and vision_client = ocr_client
      and texts = "[''Total: 500.00'' @ [NL], ''Net Payable: 450.00'']" and calls = "[]",
      OF o t]
  have "extract_text_from_pdf True sample_open sample_encode render_kind ocr_client ''%PDF-1.7'' []
     = ([] @ map (\<lambda>p. ocr_messages sample_encode (page_image p))
                (filter needs_ocr [page_native, page_scanned]),
        Inr (py_join [NL, NL] [''Total: 500.00'' @ [NL], ''Net Payable: 450.00'']))"
    by blast
  with o t n show ?thesis by simp
qed

section \<open>Properties of the financial text parser\<close>

lemma scan_lines_None: "scan_lines p ls = None \<longleftrightarrow> (\<forall>l \<in> set ls. \<not> usable p l)"
  by (induction ls) (auto simp: usable_def split: list.splits)

lemma scan_lines_Some:
  "scan_lines p ls = Some v \<Longrightarrow>
   \<exists>pre l post. ls = pre @ l # post \<and> (\<forall>x \<in> set pre. \<not> usable p x) \<and> usable p l
                \<and> v = last (number_tokens l)"
proof (induction ls)
  case Nil
  then show ?case by simp
next
  case (Cons a ls)
  show ?case
  proof (cases "usable p a")
    case True
    with Cons.prems have "v = last (number_tokens a)"
      by (auto simp: usable_def split: list.splits)
    with True have "a # ls = [] @ a # ls \<and> (\<forall>x \<in> set []. \<not> usable p x) \<and> usable p a
        \<and> v = last (number_tokens a)" by simp
    then show ?thesis by blast
  next
    case False
    with Cons.prems have "scan_lines p ls = Some v"
      by (auto simp: usable_def split: list.splits if_splits)
    from Cons.IH [OF this] obtain pre l post where
      "ls = pre @ l # post" "\<forall>x \<in> set pre. \<not> usable p x" "usable p l"
      "v = last (number_tokens l)" by blast
    with False have "a # ls = (a # pre) @ l # post \<and> (\<forall>x \<in> set (a # pre). \<not> usable p x)
        \<and> usable p l \<and> v = last (number_tokens l)" by simp
    then show ?thesis by blast
  qed
qed

lemma scan_lines_rev_Some:
  assumes "scan_lines p (rev ls) = Some v"
  shows "\<exists>pre l post. ls = pre @ l # post \<and> (\<forall>x \<in> set post. \<not> usable p x) \<and> usable p l
                \<and> v = last (number_tokens l)"
proof -
  from scan_lines_Some [OF assms] obtain pre l post where
    r: "rev ls = pre @ l # post" and n: "\<forall>x \<in> set pre. \<not> usable p x" and u: "usable p l"
    and v: "v = last (number_tokens l)" by blast
  from r have "rev (rev ls) = rev (pre @ l # post)" by simp
  then have "ls = rev post @ l # rev pre" by simp
  with n u v have "ls = rev post @ l # rev pre \<and> (\<forall>x \<in> set (rev pre). \<not> usable p x)
      \<and> usable p l \<and> v = last (number_tokens l)" by simp
  then show ?thesis by blast
qed

lemma scan_patterns_None:
  "scan_patterns ps ls = None \<longleftrightarrow> (\<forall>p \<in> set ps. \<forall>l \<in> set ls. \<not> usable p l)"
proof (induction ps)
  case Nil
  then show ?case by simp
next
  case (Cons p ps)
  have "scan_lines p (rev ls) = None \<longleftrightarrow> (\<forall>l \<in> set ls. \<not> usable p l)"
    by (simp add: scan_lines_None)
  with Cons show ?case by (auto split: option.splits)
qed

lemma scan_patterns_Some:
  "scan_patterns ps ls = Some v \<Longrightarrow>
   \<exists>qs p rs pre l post.
      ps = qs @ p # rs \<and> (\<forall>q \<in> set qs. \<forall>x \<in> set ls. \<not> usable q x)
      \<and> ls = pre @ l # post \<and> (\<forall>x \<in> set post. \<not> usable p x) \<and> usable p l
      \<and> v = last (number_tokens l)"
proof (induction ps)
  case Nil
  then show ?case by simp
next
  case (Cons a ps)
  show ?case
  proof (cases "scan_lines a (rev ls)")
    case (Some w)
    with Cons.prems have "w = v" by simp
    with Some scan_lines_rev_Some [of a ls v] obtain pre l post where
      "ls = pre @ l # post" "\<forall>x \<in> set post. \<not> usable a x" "usable a l"
      "v = last (number_tokens l)" by blast
    then have "a # ps = [] @ a # ps \<and> (\<forall>q \<in> set []. \<forall>x \<in> set ls. \<not> usable q x)
      \<and> ls = pre @ l # post \<and> (\<forall>x \<in> set post. \<not> usable a x) \<and> usable a l
      \<and> v = last (number_tokens l)" by simp
    then show ?thesis by blast
  next
    case None
    then have no: "\<forall>x \<in> set ls. \<not> usable a x"
      using scan_lines_None [of a "rev ls"] by simp
    from None Cons.prems have "scan_patterns ps ls = Some v" by simp
    from Cons.IH [OF this] obtain qs p rs pre l post where
      "ps = qs @ p # rs" "\<forall>q \<in> set qs. \<forall>x \<in> set ls. \<not> usable q x"
      "ls = pre @ l # post" "\<forall>x \<in> set post. \<not> usable p x" "usable p l"
      "v = last (number_tokens l)" by blast
    with no have "a # ps = (a # qs) @ p # rs
      \<and> (\<forall>q \<in> set (a # qs). \<forall>x \<in> set ls. \<not> usable q x)
      \<and> ls = pre @ l # post \<and> (\<forall>x \<in> set post. \<not> usable p x) \<and> usable p l
      \<and> v = last (number_tokens l)" by simp
    then show ?thesis by blast
  qed
qed

lemma not_digit_period: "\<not> is_digit CHR ''.''"
  by (simp add: is_digit_def)

lemma takeWhile_digits_stop:
  "\<not> is_digit x \<Longrightarrow> takeWhile is_digit (takeWhile is_digit s @ x # r) = takeWhile is_digit s"
  by (simp add: takeWhile_append2 [OF set_takeWhileD [THEN conjunct2]] takeWhile_tail)

lemma dropWhile_digits_stop:
  "\<not> is_digit x \<Longrightarrow> dropWhile is_digit (takeWhile is_digit s @ x # r) = x # r"
proof -
  assume x: "\<not> is_digit x"
  have "\<And>y. y \<in> set (takeWhile is_digit s) \<Longrightarrow> is_digit y"
    by (rule set_takeWhileD [THEN conjunct2])
  then have "dropWhile is_digit (takeWhile is_digit s @ x # r) = dropWhile is_digit (x # r)"
    by (rule dropWhile_append2)
  with x show ?thesis by simp
qed

lemma token_form_digits:
  "takeWhile is_digit s \<noteq> [] \<Longrightarrow> token_form (takeWhile is_digit s)"
proof -
  assume n: "takeWhile is_digit s \<noteq> []"
  have all: "\<And>y. y \<in> set (takeWhile is_digit s) \<Longrightarrow> is_digit y"
    by (rule set_takeWhileD [THEN conjunct2])
  then have t: "takeWhile is_digit (takeWhile is_digit s) = takeWhile is_digit s"
    by (simp add: takeWhile_eq_all_conv)
  from all have d: "dropWhile is_digit (takeWhile is_digit s) = []"
    by (simp add: dropWhile_eq_Nil_conv)
  show ?thesis unfolding token_form_def t d using n by simp
qed

lemma token_form_fraction:
  "takeWhile is_digit s \<noteq> [] \<Longrightarrow> list_all is_digit fs \<Longrightarrow> length fs = 1 \<or> length fs = 2 \<Longrightarrow>
   token_form (takeWhile is_digit s @ CHR ''.'' # fs)"
  by (simp add: token_form_def takeWhile_digits_stop dropWhile_digits_stop not_digit_period)

lemma token_here_form:
  assumes "token_here s = Some tok" and "takeWhile is_digit s \<noteq> []"
  shows "token_form tok"
proof -
  let ?ds = "takeWhile is_digit s"
  from assms(1) have "tok = ?ds \<or> (\<exists>d1 d2. is_digit d1 \<and> is_digit d2 \<and> tok = ?ds @ [CHR ''.'', d1, d2])
      \<or> (\<exists>d1. is_digit d1 \<and> tok = ?ds @ [CHR ''.'', d1])"
    by (auto simp: token_here_def Let_def split: list.splits if_splits)
  then show ?thesis
    using token_form_digits [OF assms(2)]
      token_form_fraction [OF assms(2)]
    by auto
qed

lemma find_tokens_form: "tok \<in> set (find_tokens prev s) \<Longrightarrow> token_form tok"
proof (induction prev s rule: find_tokens.induct)
  case (1 prev)
  then show ?case by simp
next
  case (2 prev c cs)
  show ?case
  proof (cases "is_digit c \<and> \<not> word_at prev")
    case False
    with 2 show ?thesis by auto
  next
    case True
    then have ds: "takeWhile is_digit (c # cs) \<noteq> []" by simp
    show ?thesis
    proof (cases "token_here (c # cs)")
      case None
      with True 2 show ?thesis by auto
    next
      case (Some t)
      then have f: "token_form t" using ds by (rule token_here_form)
      show ?thesis
      proof (cases "t = []")
        case True
        with f show ?thesis by (simp add: token_form_def)
      next
        case False
        with True Some "2.prems" have "tok = t \<or>
            tok \<in> set (find_tokens (Some (last t)) (drop (length t) (c # cs)))"
          by auto
        then show ?thesis
          using f "2.IH" True Some False by auto
      qed
    qed
  qed
qed

text \<open>
  C4. \<open>parse_total_amount\<close> tries the four label patterns in the order net payable,
  amount payable, grand total, total, each over all lines before the next is tried,
  and scans the lines from the last one backward. It returns nothing exactly when no
  line has both a label and a numeric token, and it raises no error. A returned value
  is the conversion of the last numeric token of a line of the text on which a
  pattern is found, no earlier pattern having a line with a token and no later line
  having that pattern with a token; the token is digits with an optional period and
  one or two fraction digits. For the text with the line \<open>Total: 500.00\<close> followed by
  the line \<open>Net Payable: 450.00\<close> the result is 450.00.
\<close>

theorem parse_total_amount_priority:
  "total_patterns = [search_two_words ''net'' ''payable'', search_two_words ''amount'' ''payable'',
                     search_two_words ''grand'' ''total'', search_word ''total'']
   \<and> (parse_total_amount to_float text = None
        \<longleftrightarrow> (\<forall>p \<in> set total_patterns. \<forall>l \<in> set (splitlines text).
               \<not> (p l \<and> number_tokens l \<noteq> [])))
   \<and> (\<forall>v. parse_total_amount to_float text = Some v \<longrightarrow>
        (\<exists>qs p rs pre l post.
           total_patterns = qs @ p # rs
           \<and> (\<forall>q \<in> set qs. \<forall>x \<in> set (splitlines text). \<not> (q x \<and> number_tokens x \<noteq> []))
           \<and> splitlines text = pre @ l # post
           \<and> (\<forall>x \<in> set post. \<not> (p x \<and> number_tokens x \<noteq> []))
           \<and> p l \<and> number_tokens l \<noteq> []
           \<and> token_form (last (number_tokens l))
           \<and> v = to_float (last (number_tokens l))))
   \<and> parse_total_amount decimal_value (''Total: 500.00'' @ [NL] @ ''Net Payable: 450.00'')
     = Some 450"
proof (intro conjI allI impI)
  show "total_patterns = [search_two_words ''net'' ''payable'',
      search_two_words ''amount'' ''payable'', search_two_words ''grand'' ''total'',
      search_word ''total'']"
    by (simp add: total_patterns_def)
  show "parse_total_amount to_float text = None
        \<longleftrightarrow> (\<forall>p \<in> set total_patterns. \<forall>l \<in> set (splitlines text).
               \<not> (p l \<and> number_tokens l \<noteq> []))"
    using scan_patterns_None [of total_patterns "splitlines text"]
    by (simp add: parse_total_amount_def usable_def)
  show "parse_total_amount decimal_value (''Total: 500.00'' @ [NL] @ ''Net Payable: 450.00'')
     = Some 450"
    by code_simp
next
  fix v
  assume "parse_total_amount to_float text = Some v"
  then obtain w where w: "scan_patterns total_patterns (splitlines text) = Some w"
    and v: "v = to_float w"
    by (auto simp: parse_total_amount_def)
  from scan_patterns_Some [OF w] obtain qs p rs pre l post where
    a: "total_patterns = qs @ p # rs"
    and b: "\<forall>q \<in> set qs. \<forall>x \<in> set (splitlines text). \<not> usable q x"
    and c: "splitlines text = pre @ l # post"
    and d: "\<forall>x \<in> set post. \<not> usable p x"
    and e: "usable p l"
    and f: "w = last (number_tokens l)"
    by blast
  from e have "last (number_tokens l) \<in> set (find_tokens None l)"
    by (simp add: usable_def number_tokens_def)
  then have g: "token_form (last (number_tokens l))" by (rule find_tokens_form)
  from b have b': "\<forall>q \<in> set qs. \<forall>x \<in> set (splitlines text). \<not> (q x \<and> number_tokens x \<noteq> [])"
    unfolding usable_def .
  from d have d': "\<forall>x \<in> set post. \<not> (p x \<and> number_tokens x \<noteq> [])"
    unfolding usable_def .
  from e have e': "p l" "number_tokens l \<noteq> []"
    unfolding usable_def by simp_all
  from v f have v': "v = to_float (last (number_tokens l))" by simp
  from a b' c d' e' g v'
  have "total_patterns = qs @ p # rs
           \<and> (\<forall>q \<in> set qs. \<forall>x \<in> set (splitlines text). \<not> (q x \<and> number_tokens x \<noteq> []))
           \<and> splitlines text = pre @ l # post
           \<and> (\<forall>x \<in> set post. \<not> (p x \<and> number_tokens x \<noteq> []))
           \<and> p l \<and> number_tokens l \<noteq> []
           \<and> token_form (last (number_tokens l))
           \<and> v = to_float (last (number_tokens l))"
    by (intro conjI)
  then show "\<exists>qs p rs pre l post.
           total_patterns = qs @ p # rs
           \<and> (\<forall>q \<in> set qs. \<forall>x \<in> set (splitlines text). \<not> (q x \<and> number_tokens x \<noteq> []))
           \<and> splitlines text = pre @ l # post
           \<and> (\<forall>x \<in> set post. \<not> (p x \<and> number_tokens x \<noteq> []))
           \<and> p l \<and> number_tokens l \<noteq> []
           \<and> token_form (last (number_tokens l))
           \<and> v = to_float (last (number_tokens l))"
    by blast
qed

theorem parse_total_amount_priority_witness:
  "parse_total_amount decimal_value bill_two_totals = Some 450
   \<and> splitlines bill_two_totals = [''Total: 500.00'', ''Net Payable: 450.00'']
   \<and> search_two_words ''net'' ''payable'' ''Net Payable: 450.00''
   \<and> search_word ''total'' ''Total: 500.00''
   \<and> number_tokens ''Net Payable: 450.00'' = [''450.00'']
   \<and> (\<exists>l. l \<in> set (splitlines bill_two_totals) \<and> token_form (last (number_tokens l))
          \<and> 450 = decimal_value (last (number_tokens l)))
   \<and> parse_total_amount decimal_value ''Subtotal 12'' = None
   \<and> \<not> search_word ''total'' ''Subtotal 12''"
proof -
  have v: "parse_total_amount decimal_value bill_two_totals = Some 450"
    by code_simp
  from parse_total_amount_priority [of decimal_value bill_two_totals,
      THEN conjunct2, THEN conjunct2, THEN conjunct1, rule_format, OF v]
  obtain pre l post where "splitlines bill_two_totals = pre @ l # post"
    and "token_form (last (number_tokens l))"
    and "450 = decimal_value (last (number_tokens l))"
    by blast
  then have e: "\<exists>l. l \<in> set (splitlines bill_two_totals) \<and> token_form (last (number_tokens l))
          \<and> 450 = decimal_value (last (number_tokens l))"
    by auto
  have n: "\<forall>p \<in> set total_patterns. \<forall>l \<in> set (splitlines ''Subtotal 12'').
               \<not> (p l \<and> number_tokens l \<noteq> [])"
    by code_simp
  from parse_total_amount_priority [of decimal_value "''Subtotal 12''",
      THEN conjunct2, THEN conjunct1, THEN iffD2, OF n]
  have none: "parse_total_amount decimal_value ''Subtotal 12'' = None" .
  have "splitlines bill_two_totals = [''Total: 500.00'', ''Net Payable: 450.00'']"
    "search_two_words ''net'' ''payable'' ''Net Payable: 450.00''"
    "search_word ''total'' ''Total: 500.00''"
    "number_tokens ''Net Payable: 450.00'' = [''450.00'']"
    "\<not> search_word ''total'' ''Subtotal 12''"
    by code_simp+
  with v e none show ?thesis by blast
qed

text \<open>A keyword without special characters is matched as the literal word.\<close>

lemma kw_prefix_plain: "CHR ''.'' \<notin> set kw \<Longrightarrow> kw_prefix kw s = ci_prefix kw s"
proof (induction kw s rule: kw_prefix.induct)
  case (1 s)
  then show ?case by (simp add: ci_prefix_def)
next
  case (2 p ps)
  then show ?case by (simp add: ci_prefix_def)
next
  case (3 p ps c cs)
  then show ?case by (auto simp: ci_prefix_def kw_char_def)
qed

lemma kw_here_plain: "CHR ''.'' \<notin> set kw \<Longrightarrow> kw_here kw prev s = word_here kw prev s"
  by (simp add: kw_here_def word_here_def kw_prefix_plain)

lemma search_kw_from_plain:
  "CHR ''.'' \<notin> set kw \<Longrightarrow> search_kw_from kw prev s = search_word_from kw prev s"
  by (induction s arbitrary: prev) (simp_all add: kw_here_plain)

lemma regex_special_period: "regex_special CHR ''.''"
  by (simp add: regex_special_def)

lemma kw_search_plain:
  assumes "\<not> list_ex regex_special kw"
  shows "kw_search rx kw line = Inr (search_word kw line)"
proof -
  from assms have n: "\<forall>c \<in> set kw. \<not> regex_special c"
    by (simp add: list_ex_iff)
  then have "CHR ''.'' \<notin> set kw"
    using regex_special_period by blast
  moreover from n have "\<not> list_ex regex_operator kw"
    by (simp add: list_ex_iff regex_operator_def)
  ultimately show ?thesis
    by (simp add: kw_search_def search_kw_def search_word_def search_kw_from_plain)
qed

lemma kw_lines_plain:
  "\<not> list_ex regex_special kw \<Longrightarrow>
   kw_lines to_float rx kw ls hits
   = Inr (hits @ map (\<lambda>l. (kw, to_float (last (number_tokens l))))
                   (filter (\<lambda>l. search_word kw l \<and> number_tokens l \<noteq> []) ls))"
  by (induction ls arbitrary: hits) (auto simp: kw_search_plain split: list.splits bool.splits)

lemma kw_loop_plain:
  "\<forall>kw \<in> set kws. \<not> list_ex regex_special kw \<Longrightarrow>
   kw_loop to_float rx text kws hits
   = Inr (hits @ concat (map (\<lambda>kw. map (\<lambda>l. (kw, to_float (last (number_tokens l))))
                   (filter (\<lambda>l. search_word kw l \<and> number_tokens l \<noteq> []) (splitlines text)))
                 kws))"
  by (induction kws arbitrary: hits) (simp_all add: kw_lines_plain)


lemma char_before_Nil: "char_before prev [] = prev"
  by (simp add: char_before_def)

lemma char_before_Cons: "char_before prev (c # pre) = char_before (Some c) pre"
  by (simp add: char_before_def)

lemma char_before_append: "char_before (char_before prev pre) m = char_before prev (pre @ m)"
  by (simp add: char_before_def)

lemma word_here_iff:
  "word_here kw prev s \<longleftrightarrow>
   (\<exists>m post. s = m @ post \<and> map fold_case m = map fold_case kw
      \<and> boundary prev (first_char s)
      \<and> boundary (char_before prev m) (first_char post))"
proof
  assume w: "word_here kw prev s"
  let ?m = "take (length kw) s" and ?post = "drop (length kw) s"
  from w have ci: "map fold_case ?m = map fold_case kw"
    by (simp add: word_here_def ci_prefix_def)
  then have "length ?m = length kw" by (metis length_map)
  then have "(?m = []) = (kw = [])" by (metis length_0_conv)
  with w ci have "s = ?m @ ?post \<and> map fold_case ?m = map fold_case kw
      \<and> boundary prev (first_char s)
      \<and> boundary (char_before prev ?m) (first_char ?post)"
    by (simp add: word_here_def char_before_def)
  then show "\<exists>m post. s = m @ post \<and> map fold_case m = map fold_case kw
      \<and> boundary prev (first_char s)
      \<and> boundary (char_before prev m) (first_char post)"
    by blast
next
  assume "\<exists>m post. s = m @ post \<and> map fold_case m = map fold_case kw
      \<and> boundary prev (first_char s)
      \<and> boundary (char_before prev m) (first_char post)"
  then obtain m post where s: "s = m @ post" and ci: "map fold_case m = map fold_case kw"
    and b1: "boundary prev (first_char s)"
    and b2: "boundary (char_before prev m) (first_char post)"
    by blast
  from ci have len: "length m = length kw" by (metis length_map)
  then have e: "(m = []) = (kw = [])" by (metis length_0_conv)
  from s len have t: "take (length kw) s = m" and d: "drop (length kw) s = post" by simp_all
  show "word_here kw prev s"
    unfolding word_here_def ci_prefix_def t d using ci b1 b2 e by (simp add: char_before_def)
qed

lemma word_here_search: "word_here kw prev s \<Longrightarrow> search_word_from kw prev s"
  by (cases s) simp_all

lemma search_word_from_split:
  "search_word_from kw prev s \<Longrightarrow>
   \<exists>pre m post. s = pre @ m @ post \<and> map fold_case m = map fold_case kw
      \<and> boundary (char_before prev pre) (first_char (m @ post))
      \<and> boundary (char_before prev (pre @ m)) (first_char post)"
proof (induction s arbitrary: prev)
  case Nil
  then have "word_here kw prev []" by simp
  then obtain m post where "[] = m @ post" "map fold_case m = map fold_case kw"
    "boundary prev (first_char [])" "boundary (char_before prev m) (first_char post)"
    unfolding word_here_iff by blast
  then have "[] = [] @ m @ post \<and> map fold_case m = map fold_case kw
      \<and> boundary (char_before prev []) (first_char (m @ post))
      \<and> boundary (char_before prev ([] @ m)) (first_char post)"
    by (simp add: char_before_Nil)
  then show ?case by blast
next
  case (Cons c cs)
  from Cons.prems have "word_here kw prev (c # cs) \<or> search_word_from kw (Some c) cs"
    by simp
  then show ?case
  proof
    assume "word_here kw prev (c # cs)"
    then obtain m post where a: "c # cs = m @ post" "map fold_case m = map fold_case kw"
      "boundary prev (first_char (c # cs))" "boundary (char_before prev m) (first_char post)"
      unfolding word_here_iff by blast
    from a(3) a(1) have "boundary (char_before prev []) (first_char (m @ post))"
      by (simp add: char_before_Nil)
    with a have "c # cs = [] @ m @ post \<and> map fold_case m = map fold_case kw
      \<and> boundary (char_before prev []) (first_char (m @ post))
      \<and> boundary (char_before prev ([] @ m)) (first_char post)"
      by simp
    then show ?thesis by blast
  next
    assume "search_word_from kw (Some c) cs"
    from Cons.IH [OF this] obtain pre m post where a: "cs = pre @ m @ post"
      "map fold_case m = map fold_case kw"
      "boundary (char_before (Some c) pre) (first_char (m @ post))"
      "boundary (char_before (Some c) (pre @ m)) (first_char post)"
      by blast
    then have "c # cs = (c # pre) @ m @ post \<and> map fold_case m = map fold_case kw
      \<and> boundary (char_before prev (c # pre)) (first_char (m @ post))
      \<and> boundary (char_before prev ((c # pre) @ m)) (first_char post)"
      by (simp add: char_before_Cons)
    then show ?thesis by blast
  qed
qed

lemma search_word_from_join:
  "map fold_case m = map fold_case kw \<Longrightarrow>
   boundary (char_before prev pre) (first_char (m @ post)) \<Longrightarrow>
   boundary (char_before prev (pre @ m)) (first_char post) \<Longrightarrow>
   search_word_from kw prev (pre @ m @ post)"
proof (induction pre arbitrary: prev)
  case Nil
  then have "m @ post = m @ post \<and> map fold_case m = map fold_case kw
      \<and> boundary prev (first_char (m @ post))
      \<and> boundary (char_before prev m) (first_char post)"
    by (simp add: char_before_Nil)
  then have "word_here kw prev (m @ post)"
    unfolding word_here_iff by blast
  then show ?case by (simp add: word_here_search)
next
  case (Cons c pre)
  from Cons.prems have "search_word_from kw (Some c) (pre @ m @ post)"
    by (intro Cons.IH) (simp_all add: char_before_Cons)
  then show ?case by simp
qed

lemma search_word_iff:
  "search_word kw l \<longleftrightarrow>
   (\<exists>pre m post. l = pre @ m @ post \<and> map fold_case m = map fold_case kw
      \<and> boundary (last_char pre) (first_char (m @ post))
      \<and> boundary (last_char (pre @ m)) (first_char post))"
proof -
  have lc: "\<And>s. last_char s = char_before None s"
    by (simp add: last_char_def char_before_def)
  show ?thesis
    unfolding search_word_def lc
    using search_word_from_split [of kw None l] search_word_from_join [of _ kw None]
    by blast
qed

text \<open>Folding the letter case keeps a word character a word character.\<close>

lemma is_word_fold_case: "is_word (fold_case c) = is_word c"
  by (auto simp: is_word_def fold_case_def Let_def)

lemma is_word_folded: "fold_case a = fold_case b \<Longrightarrow> is_word a = is_word b"
  by (metis is_word_fold_case)

lemma boundary_wordlike:
  assumes "kw \<noteq> []" and "is_word (hd kw)" and "is_word (last kw)"
    and m: "map fold_case m = map fold_case kw"
  shows "boundary (last_char pre) (first_char (m @ post)) = (\<not> word_at (last_char pre))
      \<and> boundary (last_char (pre @ m)) (first_char post) = (\<not> word_at (first_char post))"
proof -
  from m have "length m = length kw" by (metis length_map)
  with assms(1) have ne: "m \<noteq> []" by auto
  have "hd (map fold_case m) = hd (map fold_case kw)" using m by simp
  with ne assms(1) have "fold_case (hd m) = fold_case (hd kw)"
    by (simp add: hd_map)
  with assms(2) have h: "is_word (hd m)" using is_word_folded by blast
  have "last (map fold_case m) = last (map fold_case kw)" using m by simp
  with ne assms(1) have "fold_case (last m) = fold_case (last kw)"
    by (simp add: last_map)
  with assms(3) have e: "is_word (last m)" using is_word_folded by blast
  from ne h have "word_at (first_char (m @ post))"
    by (cases m) (simp_all add: word_at_def first_char_def)
  moreover from ne e have "word_at (last_char (pre @ m))"
    by (simp add: word_at_def last_char_def)
  ultimately show ?thesis by (simp add: boundary_def)
qed

lemma search_word_wordlike:
  assumes "kw \<noteq> []" and "is_word (hd kw)" and "is_word (last kw)"
  shows "search_word kw l \<longleftrightarrow>
         (\<exists>pre m post. l = pre @ m @ post \<and> map fold_case m = map fold_case kw
            \<and> \<not> word_at (last_char pre) \<and> \<not> word_at (first_char post))"
proof
  assume "search_word kw l"
  then obtain pre m post where l: "l = pre @ m @ post"
    and m: "map fold_case m = map fold_case kw"
    and b: "boundary (last_char pre) (first_char (m @ post))"
      "boundary (last_char (pre @ m)) (first_char post)"
    unfolding search_word_iff by blast
  from b boundary_wordlike [OF assms m, of pre post]
  have "\<not> word_at (last_char pre) \<and> \<not> word_at (first_char post)" by simp
  with l m show "\<exists>pre m post. l = pre @ m @ post \<and> map fold_case m = map fold_case kw
          \<and> \<not> word_at (last_char pre) \<and> \<not> word_at (first_char post)"
    by blast
next
  assume "\<exists>pre m post. l = pre @ m @ post \<and> map fold_case m = map fold_case kw
          \<and> \<not> word_at (last_char pre) \<and> \<not> word_at (first_char post)"
  then obtain pre m post where l: "l = pre @ m @ post"
    and m: "map fold_case m = map fold_case kw"
    and b: "\<not> word_at (last_char pre)" "\<not> word_at (first_char post)"
    by blast
  from b boundary_wordlike [OF assms m, of pre post]
  have "boundary (last_char pre) (first_char (m @ post))
        \<and> boundary (last_char (pre @ m)) (first_char post)"
    by simp
  with l m show "search_word kw l"
    unfolding search_word_iff by blast
qed

text \<open>
  C5, as the claim states it, fails. The keyword is pasted into the pattern with no
  escaping, so the period of the keyword \<open>misc.\<close> matches the blank of the line
  \<open>Misc charges 20.00\<close>: the line gives a hit, and it does not contain the keyword.
  And the boundary \<open>\b\<close> after the keyword \<open>fee:\<close> needs a word character next to the
  colon: the line \<open>Fee: 3.25\<close>, in which the keyword stands as a whole word before a
  blank, gives no hit.
\<close>

theorem sum_non_payables_keyword_counterexample:
  "sum_non_payables decimal_value no_rx ''Misc charges 20.00'' [''misc.'']
     = Inr (20, [(''misc.'', 20)])
   \<and> \<not> contains ''misc.'' (map fold_case ''Misc charges 20.00'')
   \<and> sum_non_payables decimal_value no_rx ''Fee: 3.25'' [''fee:''] = Inr (0, [])
   \<and> contains ''fee:'' (map fold_case ''Fee: 3.25'')
   \<and> number_tokens ''Fee: 3.25'' = [''3.25'']"
proof -
  have "kw_loop decimal_value no_rx ''Misc charges 20.00'' [''misc.''] [] = Inr [(''misc.'', 20)]"
    by code_simp
  then have a: "sum_non_payables decimal_value no_rx ''Misc charges 20.00'' [''misc.'']
     = Inr (20, [(''misc.'', 20)])"
    by (simp add: sum_non_payables_def py_sum_def)
  have "kw_loop decimal_value no_rx ''Fee: 3.25'' [''fee:''] [] = Inr []"
    by code_simp
  then have b: "sum_non_payables decimal_value no_rx ''Fee: 3.25'' [''fee:''] = Inr (0, [])"
    by (simp add: sum_non_payables_def py_sum_def)
  have "\<not> contains ''misc.'' (map fold_case ''Misc charges 20.00'')"
    "contains ''fee:'' (map fold_case ''Fee: 3.25'')"
    "number_tokens ''Fee: 3.25'' = [''3.25'']"
    by code_simp+
  with a b show ?thesis by blast
qed

text \<open>
  C5, amended. For keywords without characters that are special in a regular
  expression, \<open>sum_non_payables\<close> goes through the keywords in their order and, for
  each, through the lines from top to bottom. Every line in which the keyword is found
  as a whole word, letter case ignored, and which has a numeric token gives one hit:
  the keyword with the conversion of the last numeric token of the line. A keyword
  found in no line, and a line without a numeric token, give nothing; nothing is
  removed as a duplicate. The result is the sum of the amounts of the hits, added from
  the left starting at 0, and the hits in that order. A keyword is found in a line
  when the line is \<open>pre @ m @ post\<close> with \<open>m\<close> equal to the keyword up to letter case
  and a word boundary on either side of \<open>m\<close>; for a keyword that begins and ends with
  a word character this is: no word character right before \<open>m\<close> and none right after
  it. For the keywords registration and admin fee and the lines
  \<open>Registration charge 100.00\<close> and \<open>Admin Fee: 50.00\<close> the sum is 150.00 and the hits
  are the two lines' amounts in line order.
\<close>

theorem sum_non_payables_hits:
  "((\<forall>kw \<in> set keywords. \<not> list_ex regex_special kw) \<longrightarrow>
      sum_non_payables to_float rx text keywords
      = Inr (py_sum (map snd
                (concat (map (\<lambda>kw. map (\<lambda>l. (kw, to_float (last (number_tokens l))))
                                  (filter (\<lambda>l. search_word kw l \<and> number_tokens l \<noteq> [])
                                     (splitlines text)))
                          keywords))),
             concat (map (\<lambda>kw. map (\<lambda>l. (kw, to_float (last (number_tokens l))))
                               (filter (\<lambda>l. search_word kw l \<and> number_tokens l \<noteq> [])
                                  (splitlines text)))
                       keywords)))
   \<and> (\<forall>vs. py_sum (map to_float vs) = foldl (+) 0 (map to_float vs))
   \<and> (\<forall>kw l. search_word kw l \<longleftrightarrow>
         (\<exists>pre m post. l = pre @ m @ post \<and> map fold_case m = map fold_case kw
            \<and> boundary (last_char pre) (first_char (m @ post))
            \<and> boundary (last_char (pre @ m)) (first_char post)))
   \<and> (\<forall>kw l. kw \<noteq> [] \<and> is_word (hd kw) \<and> is_word (last kw) \<longrightarrow>
         (search_word kw l \<longleftrightarrow>
           (\<exists>pre m post. l = pre @ m @ post \<and> map fold_case m = map fold_case kw
              \<and> \<not> word_at (last_char pre) \<and> \<not> word_at (first_char post))))
   \<and> (\<forall>c. regex_special c \<longleftrightarrow> c \<in> set ''.^$*+?{}[]|()'' \<or> c = CHR 0x5C)
   \<and> sum_non_payables decimal_value rx
        (''Registration charge 100.00'' @ [NL] @ ''Admin Fee: 50.00'')
        [''registration'', ''admin fee'']
      = Inr (150, [(''registration'', 100), (''admin fee'', 50)])"
proof (intro conjI allI impI)
  assume "\<forall>kw \<in> set keywords. \<not> list_ex regex_special kw"
  then show "sum_non_payables to_float rx text keywords
      = Inr (py_sum (map snd
                (concat (map (\<lambda>kw. map (\<lambda>l. (kw, to_float (last (number_tokens l))))
                                  (filter (\<lambda>l. search_word kw l \<and> number_tokens l \<noteq> [])
                                     (splitlines text)))
                          keywords))),
             concat (map (\<lambda>kw. map (\<lambda>l. (kw, to_float (last (number_tokens l))))
                               (filter (\<lambda>l. search_word kw l \<and> number_tokens l \<noteq> [])
                                  (splitlines text)))
                       keywords))"
    by (simp add: sum_non_payables_def kw_loop_plain)
next
  fix vs show "py_sum (map to_float vs) = foldl (+) 0 (map to_float vs)"
    by (simp add: py_sum_def)
next
  fix kw l
  show "search_word kw l \<longleftrightarrow>
         (\<exists>pre m post. l = pre @ m @ post \<and> map fold_case m = map fold_case kw
            \<and> boundary (last_char pre) (first_char (m @ post))
            \<and> boundary (last_char (pre @ m)) (first_char post))"
    by (rule search_word_iff)
next
  fix kw l
  assume "kw \<noteq> [] \<and> is_word (hd kw) \<and> is_word (last kw)"
  then show "search_word kw l \<longleftrightarrow>
           (\<exists>pre m post. l = pre @ m @ post \<and> map fold_case m = map fold_case kw
              \<and> \<not> word_at (last_char pre) \<and> \<not> word_at (first_char post))"
    by (intro search_word_wordlike) simp_all
next
  fix c show "regex_special c \<longleftrightarrow> c \<in> set ''.^$*+?{}[]|()'' \<or> c = CHR 0x5C"
    by (simp add: regex_special_def)
next
  have plain: "\<forall>kw \<in> set [''registration'', ''admin fee'']. \<not> list_ex regex_special kw"
    by code_simp
  have "kw_loop decimal_value rx (''Registration charge 100.00'' @ [NL] @ ''Admin Fee: 50.00'')
          [''registration'', ''admin fee''] []
        = Inr ([] @ concat (map (\<lambda>kw. map (\<lambda>l. (kw, decimal_value (last (number_tokens l))))
                   (filter (\<lambda>l. search_word kw l \<and> number_tokens l \<noteq> [])
                      (splitlines (''Registration charge 100.00'' @ [NL] @ ''Admin Fee: 50.00''))))
                 [''registration'', ''admin fee'']))"
    using plain by (rule kw_loop_plain)
  also have "[] @ concat (map (\<lambda>kw. map (\<lambda>l. (kw, decimal_value (last (number_tokens l))))
                   (filter (\<lambda>l. search_word kw l \<and> number_tokens l \<noteq> [])
                      (splitlines (''Registration charge 100.00'' @ [NL] @ ''Admin Fee: 50.00''))))
                 [''registration'', ''admin fee''])
        = [(''registration'', 100), (''admin fee'', 50)]"
    by code_simp
  finally show "sum_non_payables decimal_value rx
        (''Registration charge 100.00'' @ [NL] @ ''Admin Fee: 50.00'')
        [''registration'', ''admin fee'']
      = Inr (150, [(''registration'', 100), (''admin fee'', 50)])"
    by (simp add: sum_non_payables_def py_sum_def)
qed

theorem sum_non_payables_hits_witness:
  "\<not> list_ex regex_special ''registration'' \<and> \<not> list_ex regex_special ''admin fee''
   \<and> splitlines bill_fees = [''Registration charge 100.00'', ''Admin Fee: 50.00'']
   \<and> search_word ''registration'' ''Registration charge 100.00''
   \<and> \<not> search_word ''registration'' ''Admin Fee: 50.00''
   \<and> search_word ''admin fee'' ''Admin Fee: 50.00''
   \<and> sum_non_payables decimal_value no_rx bill_fees [''registration'', ''admin fee'']
      = Inr (150, [(''registration'', 100), (''admin fee'', 50)])
   \<and> sum_non_payables decimal_value no_rx bill_fees [''fee'', ''fee'', ''ward'']
      = Inr (100, [(''fee'', 50), (''fee'', 50)])
   \<and> is_word (hd ''fee'') \<and> is_word (last ''fee'')
   \<and> ''Admin Fee: 50.00'' = ''Admin '' @ ''Fee'' @ '': 50.00''
   \<and> map fold_case ''Fee'' = map fold_case ''fee''
   \<and> \<not> word_at (last_char ''Admin '') \<and> \<not> word_at (first_char '': 50.00'')
   \<and> search_word ''fee'' ''Admin Fee: 50.00''"
proof -
  have p1: "\<forall>kw \<in> set [''registration'', ''admin fee'']. \<not> list_ex regex_special kw"
    and p2: "\<forall>kw \<in> set [''fee'', ''fee'', ''ward'']. \<not> list_ex regex_special kw"
    by code_simp+
  note t = sum_non_payables_hits [of _ decimal_value no_rx bill_fees, THEN conjunct1, THEN mp]
  have e1: "concat (map (\<lambda>kw. map (\<lambda>l. (kw, decimal_value (last (number_tokens l))))
                               (filter (\<lambda>l. search_word kw l \<and> number_tokens l \<noteq> [])
                                  (splitlines bill_fees)))
                       [''registration'', ''admin fee''])
            = [(''registration'', 100), (''admin fee'', 50)]"
    by code_simp
  have e2: "concat (map (\<lambda>kw. map (\<lambda>l. (kw, decimal_value (last (number_tokens l))))
                               (filter (\<lambda>l. search_word kw l \<and> number_tokens l \<noteq> [])
                                  (splitlines bill_fees)))
                       [''fee'', ''fee'', ''ward''])
            = [(''fee'', 50), (''fee'', 50)]"
    by code_simp
  have r1: "sum_non_payables decimal_value no_rx bill_fees [''registration'', ''admin fee'']
      = Inr (150, [(''registration'', 100), (''admin fee'', 50)])"
    using t [OF p1] unfolding e1 by (simp add: py_sum_def)
  have r2: "sum_non_payables decimal_value no_rx bill_fees [''fee'', ''fee'', ''ward'']
      = Inr (100, [(''fee'', 50), (''fee'', 50)])"
    using t [OF p2] unfolding e2 by (simp add: py_sum_def)
  have "\<not> list_ex regex_special ''registration''" "\<not> list_ex regex_special ''admin fee''"
    "splitlines bill_fees = [''Registration charge 100.00'', ''Admin Fee: 50.00'']"
    "search_word ''registration'' ''Registration charge 100.00''"
    "\<not> search_word ''registration'' ''Admin Fee: 50.00''"
    "search_word ''admin fee'' ''Admin Fee: 50.00''"
    by code_simp+
  moreover have w: "''fee'' \<noteq> [] \<and> is_word (hd ''fee'') \<and> is_word (last ''fee'')"
    and d: "''Admin Fee: 50.00'' = ''Admin '' @ ''Fee'' @ '': 50.00''
            \<and> map fold_case ''Fee'' = map fold_case ''fee''
            \<and> \<not> word_at (last_char ''Admin '') \<and> \<not> word_at (first_char '': 50.00'')"
    by code_simp+
  moreover from d have "\<exists>pre m post. ''Admin Fee: 50.00'' = pre @ m @ post
            \<and> map fold_case m = map fold_case ''fee''
            \<and> \<not> word_at (last_char pre) \<and> \<not> word_at (first_char post)"
    by blast
  with sum_non_payables_hits [of "[]" decimal_value no_rx "[]", THEN conjunct2, THEN conjunct2,
      THEN conjunct2, THEN conjunct1, rule_format, OF w, of "''Admin Fee: 50.00''"]
  have "search_word ''fee'' ''Admin Fee: 50.00''"
    by blast
  ultimately show ?thesis using r1 r2 by blast
qed

section \<open>Properties of the assistant output formatter\<close>

subsection \<open>Parts of a text\<close>

lemma contains_append: "contains p r \<Longrightarrow> contains p (pre @ r)"
  by (induction pre) auto

lemma contains_dropWhile: "contains p (dropWhile P s) \<Longrightarrow> contains p s"
  using contains_append [of p "dropWhile P s" "takeWhile P s"] by simp

lemma starts_with_Cons:
  "starts_with (a # p) s \<longleftrightarrow> (\<exists>cs. s = a # cs \<and> starts_with p cs)"
  by (cases s) (auto simp: starts_with_def)

lemma starts_with_Nil [simp]: "starts_with [] s"
  by (simp add: starts_with_def)

lemma contains_self: "contains b (b @ r)"
proof (cases "b @ r")
  case Nil
  then show ?thesis by simp
next
  case (Cons c cs)
  have "starts_with b (b @ r)" by (simp add: starts_with_def)
  then have "starts_with b (c # cs)" by (simp only: Cons)
  then have "contains b (c # cs)" by simp
  then show ?thesis by (simp only: Cons)
qed

lemma starts_with_append_contains: "starts_with (a @ b) s \<Longrightarrow> contains b s"
proof -
  assume "starts_with (a @ b) s"
  then have "s = a @ b @ drop (length (a @ b)) s"
    unfolding starts_with_def by (metis append_assoc append_take_drop_id)
  moreover have "contains b (a @ b @ drop (length (a @ b)) s)"
    by (intro contains_append contains_self)
  ultimately show ?thesis by simp
qed

lemma contains_longer: "contains (a @ b) s \<Longrightarrow> contains b s"
proof (induction s)
  case Nil
  then show ?case by simp
next
  case (Cons c cs)
  from Cons.prems have "starts_with (a @ b) (c # cs) \<or> contains (a @ b) cs" by simp
  then show ?case
  proof
    assume "starts_with (a @ b) (c # cs)"
    then show ?thesis by (rule starts_with_append_contains)
  next
    assume "contains (a @ b) cs"
    then have "contains b cs" by (rule Cons.IH)
    then show ?thesis by simp
  qed
qed

lemma last_dropWhile:
  "dropWhile P cs \<noteq> [] \<Longrightarrow> last (dropWhile P cs) = last cs"
  by (metis last_appendR takeWhile_dropWhile_id)

lemma takeWhile_space_hd:
  "s = [] \<or> \<not> is_space (hd s) \<Longrightarrow> takeWhile is_space s = []"
  by (cases s) auto

lemma takeWhile_NL_hd:
  "s = [] \<or> hd s \<noteq> NL \<Longrightarrow> takeWhile (\<lambda>x. x = NL) s = []"
  by (cases s) auto

subsection \<open>Steps 3 and 4 on a text without the label\<close>

lemma py_replace_absent: "old \<noteq> [] \<Longrightarrow> \<not> contains old s \<Longrightarrow> py_replace old new s = s"
proof (induction s)
  case Nil
  then show ?case by (subst py_replace.simps) (simp add: starts_with_def)
next
  case (Cons c cs)
  from Cons.prems have "\<not> starts_with old (c # cs)" "\<not> contains old cs" by simp_all
  moreover from this Cons have "py_replace old new cs = cs" by simp
  ultimately show ?case using Cons.prems(1) by (subst py_replace.simps) simp
qed

lemma bullets_after_breakdown_absent:
  "\<not> contains ''Breakdown:'' s \<Longrightarrow> bullets_after_breakdown s = s"
  by (simp add: bullets_after_breakdown_def)

lemma replace_label_absent:
  "\<not> contains ''Breakdown:'' s \<Longrightarrow>
   py_replace ''3. Breakdown:'' (''3. Breakdown:'' @ [NL]) s = s"
proof -
  assume a: "\<not> contains ''Breakdown:'' s"
  have "contains (''3. '' @ ''Breakdown:'') s \<Longrightarrow> contains ''Breakdown:'' s"
    by (rule contains_longer)
  with a have "\<not> contains ''3. Breakdown:'' s" by auto
  then show ?thesis by (intro py_replace_absent) simp_all
qed

lemma label_chars:
  "''Breakdown:'' \<noteq> []" "CHR ''.'' \<notin> set ''Breakdown:''" "NL \<notin> set ''Breakdown:''"
  "\<not> is_space (hd ''Breakdown:'')"
  by (simp_all add: is_space_def space_chars_def)

subsection \<open>Step 5\<close>

lemma not_space_period: "\<not> is_space CHR ''.''"
  by (simp add: is_space_def space_chars_def)

lemma is_space_blank: "is_space CHR '' ''"
  by (simp add: is_space_def space_chars_def)

lemma is_space_NL: "is_space NL"
  by (simp add: is_space_def space_chars_def)

lemma squeeze_newlines_Nil_iff [simp]: "squeeze_newlines s = [] \<longleftrightarrow> s = []"
  by (cases s) auto

lemma squeeze_newlines_hd: "hd (squeeze_newlines s) = hd s"
  by (cases s) auto

lemma not_digit_NL: "\<not> is_digit NL"
  by (simp add: is_digit_def)

lemma squeeze_newlines_digits:
  "takeWhile is_digit (squeeze_newlines s) = takeWhile is_digit s
   \<and> dropWhile is_digit (squeeze_newlines s) = squeeze_newlines (dropWhile is_digit s)"
proof (induction s)
  case Nil
  then show ?case by simp
next
  case (Cons c cs)
  show ?case
  proof (cases "is_digit c")
    case True
    then have "c \<noteq> NL" using not_digit_NL by auto
    with True Cons show ?thesis by simp
  next
    case False
    then have "\<not> is_digit (hd (squeeze_newlines (c # cs)))"
      by (simp add: squeeze_newlines_hd del: squeeze_newlines.simps)
    then have "takeWhile is_digit (squeeze_newlines (c # cs)) = []"
      "dropWhile is_digit (squeeze_newlines (c # cs)) = squeeze_newlines (c # cs)"
      by (cases "squeeze_newlines (c # cs)"; simp)+
    with False show ?thesis by simp
  qed
qed

lemma period_space_shape_squeeze:
  "(case squeeze_newlines r of c1 # c2 # x \<Rightarrow> c1 = CHR ''.'' \<and> is_space c2 | _ \<Rightarrow> False)
   = (case r of c1 # c2 # x \<Rightarrow> c1 = CHR ''.'' \<and> is_space c2 | _ \<Rightarrow> False)"
proof (cases r)
  case Nil
  then show ?thesis by simp
next
  case (Cons c1 r1)
  show ?thesis
  proof (cases "c1 = CHR ''.''")
    case False
    then have "hd (squeeze_newlines (c1 # r1)) \<noteq> CHR ''.''"
      by (simp add: squeeze_newlines_hd del: squeeze_newlines.simps)
    then have "(case squeeze_newlines (c1 # r1) of
                  c1 # c2 # x \<Rightarrow> c1 = CHR ''.'' \<and> is_space c2 | _ \<Rightarrow> False) = False"
      by (cases "squeeze_newlines (c1 # r1)") (auto split: list.splits)
    with False Cons show ?thesis by (auto split: list.splits)
  next
    case True
    then have sq: "squeeze_newlines (c1 # r1) = c1 # squeeze_newlines r1" by simp
    show ?thesis
    proof (cases r1)
      case Nil
      with Cons sq show ?thesis by simp
    next
      case (Cons c2 r2)
      have "squeeze_newlines (c2 # r2) \<noteq> []"
        by (simp del: squeeze_newlines.simps)
      then obtain d x where dx: "squeeze_newlines (c2 # r2) = d # x"
        by (cases "squeeze_newlines (c2 # r2)") (auto simp del: squeeze_newlines.simps)
      have "hd (squeeze_newlines (c2 # r2)) = c2"
        by (simp add: squeeze_newlines_hd del: squeeze_newlines.simps)
      then have "d = c2" unfolding dx by simp
      with True \<open>r = c1 # r1\<close> Cons sq dx show ?thesis
        by (simp del: squeeze_newlines.simps)
    qed
  qed
qed

lemma numbered_ahead_squeeze_newlines:
  "numbered_ahead (squeeze_newlines s) = numbered_ahead s"
  unfolding numbered_ahead_def
  by (simp only: squeeze_newlines_digits period_space_shape_squeeze)

lemma starts_with_squeeze_newlines:
  "NL \<notin> set p \<Longrightarrow> starts_with p (squeeze_newlines s) = starts_with p s"
proof (induction p arbitrary: s)
  case Nil
  then show ?case by simp
next
  case (Cons a p)
  show ?case
  proof (cases s)
    case Nil
    then show ?thesis by (simp add: starts_with_def)
  next
    case (Cons c cs)
    show ?thesis
    proof (cases "c = a")
      case True
      with Cons.prems have "c \<noteq> NL" by auto
      with True Cons Cons.IH [of cs] Cons.prems show ?thesis
        by (simp add: starts_with_Cons)
    next
      case False
      moreover have "hd (squeeze_newlines (c # cs)) = c"
        by (simp add: squeeze_newlines_hd del: squeeze_newlines.simps)
      ultimately have "\<not> starts_with (a # p) (squeeze_newlines (c # cs))"
        by (auto simp: starts_with_Cons)
      with False Cons show ?thesis by (simp add: starts_with_Cons)
    qed
  qed
qed

lemma contains_squeeze_newlines:
  "p \<noteq> [] \<Longrightarrow> NL \<notin> set p \<Longrightarrow> contains p (squeeze_newlines s) \<Longrightarrow> contains p s"
proof (induction s rule: squeeze_newlines.induct)
  case 1
  then show ?case by simp
next
  case (2 c cs)
  note sw = starts_with_squeeze_newlines [OF "2.prems"(2)]
  show ?case
  proof (cases "c = NL \<and> 2 \<le> length (takeWhile (\<lambda>x. x = NL) cs)")
    case True
    let ?r = "dropWhile (\<lambda>x. x = NL) cs"
    from "2.prems"(1,2) have nb: "\<And>t. \<not> starts_with p (NL # t)"
      by (cases p) (auto simp: starts_with_Cons)
    from True "2.prems"(3)
    have "contains p (NL # NL # squeeze_newlines ?r)" by simp
    with nb have "contains p (squeeze_newlines ?r)" by simp
    then have "contains p ?r" using "2.IH"(1) [OF True "2.prems"(1,2)] by blast
    then have "contains p cs" by (rule contains_dropWhile)
    then show ?thesis by simp
  next
    case False
    with "2.prems"(3) have "starts_with p (squeeze_newlines (c # cs))
        \<or> contains p (squeeze_newlines cs)"
      by auto
    then show ?thesis
    proof
      assume "starts_with p (squeeze_newlines (c # cs))"
      then have "starts_with p (c # cs)" by (simp only: sw)
      then show ?thesis by simp
    next
      assume "contains p (squeeze_newlines cs)"
      then have "contains p cs" using "2.IH"(2) [OF False "2.prems"(1,2)] by blast
      then show ?thesis by simp
    qed
  qed
qed

lemma takeWhile_space_squeeze:
  "takeWhile is_space s = [] \<Longrightarrow> takeWhile is_space (squeeze_newlines s) = []"
proof -
  assume "takeWhile is_space s = []"
  then have "s = [] \<or> \<not> is_space (hd s)" by (cases s) (auto split: if_splits)
  then have "squeeze_newlines s = [] \<or> \<not> is_space (hd (squeeze_newlines s))"
    by (simp add: squeeze_newlines_hd)
  then show ?thesis by (rule takeWhile_space_hd)
qed

lemma newlines_squeezed_fixed: "newlines_squeezed s \<Longrightarrow> squeeze_newlines s = s"
  by (induction s) auto

lemma squeeze_newlines_run:
  "length (takeWhile (\<lambda>x. x = NL) (squeeze_newlines s)) \<le> 2
   \<and> (length (takeWhile (\<lambda>x. x = NL) s) < 2 \<longrightarrow>
        length (takeWhile (\<lambda>x. x = NL) (squeeze_newlines s)) < 2)"
proof (cases s)
  case Nil
  then show ?thesis by simp
next
  case (Cons c cs)
  show ?thesis
  proof (cases "c = NL")
    case False
    with Cons show ?thesis by simp
  next
    case True
    show ?thesis
    proof (cases "2 \<le> length (takeWhile (\<lambda>x. x = NL) cs)")
      case True
      let ?r = "dropWhile (\<lambda>x. x = NL) cs"
      have "?r = [] \<or> hd ?r \<noteq> NL" using hd_dropWhile [of "\<lambda>x. x = NL" cs] by blast
      then have "squeeze_newlines ?r = [] \<or> hd (squeeze_newlines ?r) \<noteq> NL"
        by (simp add: squeeze_newlines_hd)
      then have "takeWhile (\<lambda>x. x = NL) (squeeze_newlines ?r) = []"
        by (rule takeWhile_NL_hd)
      with True \<open>c = NL\<close> Cons show ?thesis by auto
    next
      case False
      have "takeWhile (\<lambda>x. x = NL) cs = [] \<or> takeWhile (\<lambda>x. x = NL) cs = [NL]"
      proof (cases "takeWhile (\<lambda>x. x = NL) cs")
        case Nil
        then show ?thesis by simp
      next
        case (Cons a t)
        then have "a \<in> set (takeWhile (\<lambda>x. x = NL) cs)" by simp
        then have a: "a = NL" by (rule set_takeWhileD [THEN conjunct2])
        from False Cons have "t = []" by (cases t) auto
        with a show ?thesis using Cons by simp
      qed
      then show ?thesis
      proof
        assume e: "takeWhile (\<lambda>x. x = NL) cs = []"
        then have "cs = [] \<or> hd cs \<noteq> NL" by (cases cs) (auto split: if_splits)
        then have "squeeze_newlines cs = [] \<or> hd (squeeze_newlines cs) \<noteq> NL"
          by (simp add: squeeze_newlines_hd)
        then have "takeWhile (\<lambda>x. x = NL) (squeeze_newlines cs) = []"
          by (rule takeWhile_NL_hd)
        with e \<open>c = NL\<close> Cons show ?thesis by simp
      next
        assume e: "takeWhile (\<lambda>x. x = NL) cs = [NL]"
        then obtain ds where cs: "cs = NL # ds" by (cases cs) (auto split: if_splits)
        with e have d: "takeWhile (\<lambda>x. x = NL) ds = []" by simp
        then have "ds = [] \<or> hd ds \<noteq> NL" by (cases ds) (auto split: if_splits)
        then have "squeeze_newlines ds = [] \<or> hd (squeeze_newlines ds) \<noteq> NL"
          by (simp add: squeeze_newlines_hd)
        then have "takeWhile (\<lambda>x. x = NL) (squeeze_newlines ds) = []"
          by (rule takeWhile_NL_hd)
        with d cs \<open>c = NL\<close> Cons show ?thesis by simp
      qed
    qed
  qed
qed

lemma squeeze_newlines_squeezed: "newlines_squeezed (squeeze_newlines s)"
proof (induction s rule: squeeze_newlines.induct)
  case 1
  then show ?case by simp
next
  case (2 c cs)
  show ?case
  proof (cases "c = NL \<and> 2 \<le> length (takeWhile (\<lambda>x. x = NL) cs)")
    case True
    let ?r = "dropWhile (\<lambda>x. x = NL) cs"
    have "?r = [] \<or> hd ?r \<noteq> NL" using hd_dropWhile [of "\<lambda>x. x = NL" cs] by blast
    then have "squeeze_newlines ?r = [] \<or> hd (squeeze_newlines ?r) \<noteq> NL"
      by (simp add: squeeze_newlines_hd)
    then have "takeWhile (\<lambda>x. x = NL) (squeeze_newlines ?r) = []"
      by (rule takeWhile_NL_hd)
    with True "2.IH"(1) [OF True] show ?thesis by simp
  next
    case False
    then have "c = NL \<Longrightarrow> length (takeWhile (\<lambda>x. x = NL) (squeeze_newlines cs)) < 2"
      using squeeze_newlines_run [of cs] by auto
    with False "2.IH"(2) [OF False] show ?thesis by auto
  qed
qed

lemma squeeze_newlines_last:
  "s \<noteq> [] \<Longrightarrow> last s \<noteq> NL \<Longrightarrow> last (squeeze_newlines s) = last s"
proof (induction s rule: squeeze_newlines.induct)
  case 1
  then show ?case by simp
next
  case (2 c cs)
  show ?case
  proof (cases "c = NL \<and> 2 \<le> length (takeWhile (\<lambda>x. x = NL) cs)")
    case True
    let ?r = "dropWhile (\<lambda>x. x = NL) cs"
    from True have cs: "cs \<noteq> []" by auto
    have r: "?r \<noteq> []"
    proof
      assume "?r = []"
      then have "\<forall>x \<in> set cs. x = NL" by (simp add: dropWhile_eq_Nil_conv)
      with cs have "last cs = NL" by simp
      with cs "2.prems"(2) show False by simp
    qed
    then have l: "last ?r = last cs" by (rule last_dropWhile)
    with cs "2.prems"(2) have "last ?r \<noteq> NL" by simp
    then have i: "last (squeeze_newlines ?r) = last ?r"
      using "2.IH"(1) [OF True r] by blast
    from True have e: "squeeze_newlines (c # cs) = NL # NL # squeeze_newlines ?r" by simp
    from r have "squeeze_newlines ?r \<noteq> []" by simp
    then have "last (squeeze_newlines (c # cs)) = last (squeeze_newlines ?r)"
      unfolding e by (simp del: squeeze_newlines_Nil_iff)
    with i l cs show ?thesis by simp
  next
    case False
    show ?thesis
    proof (cases "cs = []")
      case True
      with False show ?thesis by auto
    next
      case ne: False
      with "2.prems"(2) have "last cs \<noteq> NL" by simp
      then have "last (squeeze_newlines cs) = last cs"
        using "2.IH"(2) [OF False ne] by blast
      with False ne show ?thesis by auto
    qed
  qed
qed

subsection \<open>Step 1 around a numbered point\<close>

lemma digit_not_space: "is_digit c \<Longrightarrow> \<not> is_space c"
  by (auto simp: is_digit_def is_space_def space_chars_def)

lemma numbered_ahead_hd: "numbered_ahead s \<Longrightarrow> s \<noteq> [] \<and> is_digit (hd s)"
  by (cases s) (auto simp: numbered_ahead_def split: if_splits)

lemma numbered_ahead_not_space: "numbered_ahead s \<Longrightarrow> s \<noteq> [] \<and> \<not> is_space (hd s)"
  using numbered_ahead_hd [of s] digit_not_space by blast

lemma numbered_ahead_Cons_space:
  "cs \<noteq> [] \<Longrightarrow> is_space (hd cs) \<Longrightarrow> \<not> numbered_ahead (c # cs)"
proof (cases "is_digit c")
  case False
  then show ?thesis by (simp add: numbered_ahead_def)
next
  case True
  assume "cs \<noteq> []" "is_space (hd cs)"
  then obtain x xs where cs: "cs = x # xs" and x: "is_space x" by (cases cs) auto
  then have "\<not> is_digit x" using digit_not_space by blast
  moreover from x have "x \<noteq> CHR ''.''" using not_space_period by auto
  ultimately show ?thesis using True cs
    by (auto simp: numbered_ahead_def split: list.splits)
qed

lemma takeWhile_space_Cons:
  "takeWhile is_space cs \<noteq> [] \<Longrightarrow> cs \<noteq> [] \<and> is_space (hd cs)"
  by (cases cs) (auto split: if_splits)

lemma break_before_numbers_copy:
  "\<not> (takeWhile is_space (c # cs) \<noteq> [] \<and> numbered_ahead (dropWhile is_space (c # cs))) \<Longrightarrow>
   \<not> (numbered_ahead (c # cs) \<and> \<not> at0 \<and> \<not> adv) \<Longrightarrow>
   break_before_numbers at0 adv (c # cs) = c # break_before_numbers False False cs"
  by (subst break_before_numbers.simps) (simp only: if_False list.case)

lemma break_before_numbers_Nil: "break_before_numbers at0 adv [] = []"
  by (subst break_before_numbers.simps) (simp add: numbered_ahead_def)

lemma break_before_numbers_space_run:
  "is_space c \<Longrightarrow> \<not> numbered_ahead (dropWhile is_space cs) \<Longrightarrow>
   break_before_numbers at0 adv (c # cs)
   = c # takeWhile is_space cs @ break_before_numbers False False (dropWhile is_space cs)"
proof (induction cs arbitrary: c at0 adv)
  case Nil
  have "break_before_numbers at0 adv [c] = c # break_before_numbers False False []"
    using Nil by (intro break_before_numbers_copy) (auto simp: numbered_ahead_def digit_not_space)
  then show ?case by simp
next
  case (Cons x xs)
  have n: "\<not> numbered_ahead (c # x # xs)"
    using Cons.prems(1) numbered_ahead_not_space [of "c # x # xs"] by auto
  have "break_before_numbers at0 adv (c # x # xs)
        = c # break_before_numbers False False (x # xs)"
    using Cons.prems n by (intro break_before_numbers_copy) auto
  moreover have "break_before_numbers False False (x # xs)
        = takeWhile is_space (x # xs)
          @ break_before_numbers False False (dropWhile is_space (x # xs))"
  proof (cases "is_space x")
    case True
    with Cons.prems(2) have "\<not> numbered_ahead (dropWhile is_space xs)" by simp
    with True Cons.IH [of x False False] show ?thesis by simp
  next
    case False
    then show ?thesis by simp
  qed
  ultimately show ?case by simp
qed

lemma break_before_numbers_point:
  assumes "takeWhile is_space cs \<noteq> []" and "numbered_ahead (dropWhile is_space cs)"
    and "\<not> is_space c"
  shows "break_before_numbers at0 adv (c # cs)
         = c # NL # NL # break_before_numbers False True (dropWhile is_space cs)"
proof -
  let ?r = "dropWhile is_space cs"
  from assms(1) have cs: "cs \<noteq> []" "is_space (hd cs)"
    using takeWhile_space_Cons by blast+
  then have n: "\<not> numbered_ahead (c # cs)" by (rule numbered_ahead_Cons_space)
  have 1: "break_before_numbers at0 adv (c # cs) = c # break_before_numbers False False cs"
    using assms(3) n by (intro break_before_numbers_copy) auto
  have 2: "break_before_numbers False False cs = NL # break_before_numbers False False ?r"
    using assms(1,2) by (subst break_before_numbers.simps) simp
  from assms(2) have r: "?r \<noteq> []" "\<not> is_space (hd ?r)"
    using numbered_ahead_not_space by blast+
  then have t: "takeWhile is_space ?r = []" by (cases ?r) auto
  have 3: "break_before_numbers False False ?r = NL # break_before_numbers False True ?r"
    using assms(2) t by (subst break_before_numbers.simps) simp
  from 1 2 3 show ?thesis by simp
qed

lemma break_before_numbers_hd:
  assumes "\<not> is_space c" and "\<not> numbered_ahead (c # cs) \<or> at0 \<or> adv"
  shows "break_before_numbers at0 adv (c # cs) = c # break_before_numbers False False cs"
  using assms by (intro break_before_numbers_copy) auto

subsection \<open>Steps 1 and 2 in one pass\<close>

lemma spaced_head_space:
  "spaced (c # cs) \<Longrightarrow> is_space c \<Longrightarrow> \<not> numbered_ahead (dropWhile is_space cs)"
proof -
  assume s: "spaced (c # cs)" and c: "is_space c"
  show ?thesis
  proof (cases "takeWhile is_space cs = []")
    case True
    then have "dropWhile is_space cs = cs"
      using takeWhile_dropWhile_id [of is_space cs] by simp
    with s c True show ?thesis by simp
  next
    case False
    with s c show ?thesis by auto
  qed
qed

lemma spaced_dropWhile:
  "spaced cs \<Longrightarrow> \<not> numbered_ahead (dropWhile is_space cs) \<Longrightarrow> spaced (dropWhile is_space cs)"
proof (induction cs)
  case Nil
  then show ?case by simp
next
  case (Cons x xs)
  show ?case
  proof (cases "is_space x")
    case False
    with Cons.prems show ?thesis by simp
  next
    case True
    with Cons.prems(2) have n: "\<not> numbered_ahead (dropWhile is_space xs)" by simp
    with Cons.prems(1) True have "spaced xs" by (auto split: if_splits)
    with n True Cons.IH show ?thesis by simp
  qed
qed

lemma run_then_rest:
  "\<forall>x \<in> set w. P x \<Longrightarrow> takeWhile P X = [] \<Longrightarrow>
   takeWhile P (w @ X) = w \<and> dropWhile P (w @ X) = X"
proof -
  assume w: "\<forall>x \<in> set w. P x" and X: "takeWhile P X = []"
  from X have d: "dropWhile P X = X" using takeWhile_dropWhile_id [of P X] by simp
  from w have "takeWhile P (w @ X) = w @ takeWhile P X" by (simp add: takeWhile_append2)
  moreover from w have "dropWhile P (w @ X) = dropWhile P X" by (simp add: dropWhile_append2)
  ultimately show ?thesis using X d by simp
qed

lemma break_before_numbers_no_space:
  assumes "s = [] \<or> \<not> is_space (hd s)" and "\<not> numbered_ahead s \<or> at0 \<or> adv"
  shows "takeWhile is_space (break_before_numbers at0 adv s) = []"
proof (cases s)
  case Nil
  then show ?thesis by (simp add: break_before_numbers_Nil)
next
  case (Cons c cs)
  with assms have "break_before_numbers at0 adv (c # cs)
      = c # break_before_numbers False False cs"
    by (intro break_before_numbers_hd) auto
  with Cons assms(1) show ?thesis by simp
qed

lemma dropWhile_space_hd:
  "dropWhile is_space cs = [] \<or> \<not> is_space (hd (dropWhile is_space cs))"
  using hd_dropWhile [of is_space cs] by blast

lemma steps_settle:
  "spaced s \<Longrightarrow> \<not> numbered_ahead s \<or> at0 \<or> adv \<Longrightarrow>
   space_after_period (break_before_numbers at0 adv s) = settle s"
proof (induction s arbitrary: at0 adv rule: settle.induct)
  case 1
  then show ?case by (simp add: break_before_numbers_Nil)
next
  case (2 c cs)
  let ?w = "takeWhile is_space cs" and ?r = "dropWhile is_space cs"
  show ?case
  proof (cases "?w \<noteq> [] \<and> numbered_ahead ?r")
    case True
    with "2.prems"(1) have c: "\<not> is_space c" and sr: "spaced ?r" by simp_all
    let ?X = "break_before_numbers False True ?r"
    have b: "break_before_numbers at0 adv (c # cs) = c # NL # NL # ?X"
      using True c by (intro break_before_numbers_point) simp_all
    from True have "?r = [] \<or> \<not> is_space (hd ?r)" using dropWhile_space_hd by blast
    then have tX: "takeWhile is_space ?X = []"
      by (intro break_before_numbers_no_space) simp_all
    have "takeWhile is_space ([NL, NL] @ ?X) = [NL, NL]
        \<and> dropWhile is_space ([NL, NL] @ ?X) = ?X"
      using tX by (intro run_then_rest) (simp_all add: is_space_NL)
    then have tw: "takeWhile is_space (NL # NL # ?X) = [NL, NL]"
      and dw: "dropWhile is_space (NL # NL # ?X) = ?X" by simp_all
    have ih: "space_after_period ?X = settle ?r"
      using "2.IH"(1) [OF True sr] by simp
    have "space_after_period (c # NL # NL # ?X) = c # point_gap c @ space_after_period ?X"
    proof (cases "c = CHR ''.''")
      case True
      then show ?thesis using tw dw by (simp add: point_gap_def)
    next
      case False
      have "space_after_period (NL # NL # ?X) = NL # NL # space_after_period ?X" by simp
      with False show ?thesis by (simp add: point_gap_def)
    qed
    with True b ih show ?thesis by simp
  next
    case no_point: False
    from "2.prems"(1) no_point have ncs: "\<not> numbered_ahead cs" and scs: "spaced cs"
      by (auto split: if_splits)
    have nr: "?w \<noteq> [] \<Longrightarrow> \<not> numbered_ahead ?r" using no_point by blast
    have copy: "break_before_numbers at0 adv (c # cs)
        = c # break_before_numbers False False cs"
    proof (intro break_before_numbers_copy)
      show "\<not> (takeWhile is_space (c # cs) \<noteq> []
          \<and> numbered_ahead (dropWhile is_space (c # cs)))"
      proof (cases "is_space c")
        case True
        with "2.prems"(1) have "\<not> numbered_ahead ?r" by (rule spaced_head_space)
        with True show ?thesis by simp
      next
        case False
        then show ?thesis by simp
      qed
      show "\<not> (numbered_ahead (c # cs) \<and> \<not> at0 \<and> \<not> adv)"
        using "2.prems"(2) by blast
    qed
    show ?thesis
    proof (cases "c = CHR ''.'' \<and> ?w \<noteq> []")
      case True
      then have nr': "\<not> numbered_ahead ?r" using nr by blast
      from True obtain x xs where cs: "cs = x # xs" and x: "is_space x"
        by (cases cs) (auto split: if_splits)
      let ?X = "break_before_numbers False False ?r"
      from nr' cs x have "\<not> numbered_ahead (dropWhile is_space xs)" by simp
      with x have "break_before_numbers False False (x # xs)
          = x # takeWhile is_space xs
            @ break_before_numbers False False (dropWhile is_space xs)"
        by (rule break_before_numbers_space_run)
      with cs x have run: "break_before_numbers False False cs = ?w @ ?X" by simp
      have tX: "takeWhile is_space ?X = []"
        using dropWhile_space_hd [of cs] nr'
        by (intro break_before_numbers_no_space) simp_all
      have "\<forall>y \<in> set ?w. is_space y" by (auto dest: set_takeWhileD)
      then have "takeWhile is_space (?w @ ?X) = ?w \<and> dropWhile is_space (?w @ ?X) = ?X"
        using tX by (rule run_then_rest)
      with True have sp: "space_after_period (CHR ''.'' # ?w @ ?X)
          = CHR ''.'' # CHR '' '' # space_after_period ?X" by simp
      from scs nr' have "spaced ?r" by (rule spaced_dropWhile)
      then have "space_after_period ?X = settle ?r"
        using "2.IH"(2) [OF no_point True] nr' by simp
      with True no_point copy run sp show ?thesis by simp
    next
      case False
      let ?X = "break_before_numbers False False cs"
      have ih: "space_after_period ?X = settle cs"
        using "2.IH"(3) [OF no_point False scs] ncs by simp
      have "space_after_period (c # ?X) = c # space_after_period ?X"
      proof (cases "c = CHR ''.''")
        case True
        with False have "?w = []" by simp
        then have "cs = [] \<or> \<not> is_space (hd cs)" by (cases cs) (auto split: if_splits)
        then have "takeWhile is_space ?X = []"
          using ncs by (intro break_before_numbers_no_space) simp_all
        with True show ?thesis by simp
      next
        case False
        then show ?thesis by simp
      qed
      with False no_point copy ih show ?thesis by auto
    qed
  qed
qed

subsection \<open>The pass keeps what matters\<close>

lemma points_after_space_suffix:
  "points_after_space p (pre @ t) \<Longrightarrow>
   points_after_space (if pre = [] then p else Some (last pre)) t"
proof (induction pre arbitrary: p)
  case Nil
  then show ?case by simp
next
  case (Cons a pre)
  from Cons.prems have "points_after_space (Some a) (pre @ t)" by simp
  from Cons.IH [OF this] show ?case by (cases "pre = []") simp_all
qed

lemma points_after_space_spaced:
  "points_after_space p s \<Longrightarrow>
   s = [] \<or> \<not> is_space (hd s) \<or> \<not> numbered_ahead (dropWhile is_space s) \<Longrightarrow>
   spaced s"
proof (induction s arbitrary: p rule: spaced.induct)
  case 1
  then show ?case by simp
next
  case (2 c cs)
  let ?w = "takeWhile is_space cs" and ?r = "dropWhile is_space cs"
  from "2.prems"(1) have pcs: "points_after_space (Some c) cs" by simp
  show ?case
  proof (cases "?w \<noteq> [] \<and> numbered_ahead ?r")
    case True
    from "2.prems"(2) True have c: "\<not> is_space c" by auto
    have "points_after_space (Some c) (?w @ ?r)" using pcs by simp
    then have "points_after_space (if ?w = [] then Some c else Some (last ?w)) ?r"
      by (rule points_after_space_suffix)
    moreover from True have "?r = [] \<or> \<not> is_space (hd ?r)
        \<or> \<not> numbered_ahead (dropWhile is_space ?r)"
      using dropWhile_space_hd [of cs] by blast
    ultimately have "spaced ?r" using "2.IH"(1) [OF True] by blast
    with True c show ?thesis by simp
  next
    case False
    have ncs: "\<not> numbered_ahead cs"
    proof
      assume m: "numbered_ahead cs"
      then obtain x xs where cs: "cs = x # xs" and x: "\<not> is_space x"
        using numbered_ahead_not_space [of cs] by (cases cs) auto
      with m pcs have "is_space c" by simp
      moreover from cs x have "dropWhile is_space cs = cs" by simp
      ultimately show False using "2.prems"(2) m by simp
    qed
    have "cs = [] \<or> \<not> is_space (hd cs) \<or> \<not> numbered_ahead ?r"
    proof (cases "?w = []")
      case True
      then show ?thesis by (cases cs) (auto split: if_splits)
    next
      case ne: False
      with False show ?thesis by blast
    qed
    with pcs have "spaced cs" using "2.IH"(2) [OF False] by blast
    with False ncs show ?thesis by auto
  qed
qed

lemma settle_Nil_iff [simp]: "settle s = [] \<longleftrightarrow> s = []"
  by (cases s) auto

lemma settle_hd: "hd (settle s) = hd s"
  by (cases s) auto

lemma settle_no_space:
  "s = [] \<or> \<not> is_space (hd s) \<Longrightarrow> takeWhile is_space (settle s) = []"
proof -
  assume "s = [] \<or> \<not> is_space (hd s)"
  then have "settle s = [] \<or> \<not> is_space (hd (settle s))" by (simp add: settle_hd)
  then show ?thesis by (rule takeWhile_space_hd)
qed

lemma settle_run:
  "\<not> numbered_ahead (dropWhile is_space s) \<Longrightarrow>
   settle s = takeWhile is_space s @ settle (dropWhile is_space s)"
proof (induction s)
  case Nil
  then show ?case by simp
next
  case (Cons x xs)
  show ?case
  proof (cases "is_space x")
    case False
    then show ?thesis by simp
  next
    case True
    with Cons.prems have n: "\<not> numbered_ahead (dropWhile is_space xs)" by simp
    from True have "x \<noteq> CHR ''.''" using not_space_period by auto
    with n have "settle (x # xs) = x # settle xs" by simp
    with True n Cons.IH show ?thesis by simp
  qed
qed

lemma point_gap_spaces: "\<forall>x \<in> set (point_gap c). is_space x"
  by (simp add: point_gap_def is_space_blank is_space_NL)

lemma point_gap_not_Nil: "point_gap c \<noteq> []"
  by (simp add: point_gap_def)

lemma period_space_shape_settle:
  "(case settle t of c1 # c2 # x \<Rightarrow> c1 = CHR ''.'' \<and> is_space c2 | _ \<Rightarrow> False)
   = (case t of c1 # c2 # x \<Rightarrow> c1 = CHR ''.'' \<and> is_space c2 | _ \<Rightarrow> False)"
proof (cases t)
  case Nil
  then show ?thesis by simp
next
  case (Cons c1 t1)
  show ?thesis
  proof (cases "c1 = CHR ''.''")
    case False
    have "hd (settle (c1 # t1)) = c1" by (simp only: settle_hd list.sel)
    with False have "(case settle (c1 # t1) of
        c1 # c2 # x \<Rightarrow> c1 = CHR ''.'' \<and> is_space c2 | _ \<Rightarrow> False) = False"
      by (cases "settle (c1 # t1)") (auto split: list.splits)
    with False Cons show ?thesis by (auto split: list.splits)
  next
    case True
    show ?thesis
    proof (cases "takeWhile is_space t1 = []")
      case e: True
      then have t1: "t1 = [] \<or> \<not> is_space (hd t1)" by (cases t1) (auto split: if_splits)
      from e True have s: "settle (c1 # t1) = c1 # settle t1" by simp
      show ?thesis
      proof (cases t1)
        case Nil
        with Cons s show ?thesis by simp
      next
        case c2: (Cons c2 t2)
        with t1 have n: "\<not> is_space c2" by simp
        have "settle (c2 # t2) \<noteq> []" by (simp del: settle.simps)
        then obtain d x where dx: "settle (c2 # t2) = d # x"
          by (cases "settle (c2 # t2)") (auto simp del: settle.simps)
        have "hd (settle (c2 # t2)) = c2" by (simp only: settle_hd list.sel)
        then have "d = c2" unfolding dx by simp
        with n True Cons c2 s dx show ?thesis by (simp del: settle.simps)
      qed
    next
      case ne: False
      then obtain c2 t2 where t1: "t1 = c2 # t2" and c2: "is_space c2"
        by (cases t1) (auto split: if_splits)
      have "\<exists>y. settle (c1 # t1) = CHR ''.'' # CHR '' '' # y"
        using True ne by (simp add: point_gap_def)
      then obtain y where "settle (c1 # t1) = CHR ''.'' # CHR '' '' # y" ..
      with True Cons t1 c2 show ?thesis by (simp add: is_space_blank del: settle.simps)
    qed
  qed
qed

lemma numbered_ahead_digit_Cons:
  "is_digit c \<Longrightarrow>
   numbered_ahead (c # t)
   = (numbered_ahead t \<or> (case t of c1 # c2 # x \<Rightarrow> c1 = CHR ''.'' \<and> is_space c2 | _ \<Rightarrow> False))"
proof (cases t)
  case Nil
  assume "is_digit c"
  with Nil show ?thesis by (simp add: numbered_ahead_def)
next
  case (Cons a u)
  assume c: "is_digit c"
  show ?thesis
  proof (cases "is_digit a")
    case True
    then have "a \<noteq> CHR ''.''" using not_digit_period by auto
    with c True Cons show ?thesis by (cases u) (simp_all add: numbered_ahead_def)
  next
    case False
    with c Cons show ?thesis by (simp add: numbered_ahead_def)
  qed
qed

lemma numbered_ahead_settle: "numbered_ahead (settle s) = numbered_ahead s"
proof (induction s)
  case Nil
  then show ?case by simp
next
  case (Cons c cs)
  show ?case
  proof (cases "is_digit c")
    case False
    have "hd (settle (c # cs)) = c" by (simp only: settle_hd list.sel)
    moreover have "settle (c # cs) \<noteq> []" by (simp del: settle.simps)
    ultimately have "\<not> numbered_ahead (settle (c # cs))"
      using False numbered_ahead_hd [of "settle (c # cs)"] by auto
    moreover from False have "\<not> numbered_ahead (c # cs)"
      using numbered_ahead_hd [of "c # cs"] by auto
    ultimately show ?thesis by simp
  next
    case True
    then have np: "c \<noteq> CHR ''.''" using not_digit_period by auto
    show ?thesis
    proof (cases "takeWhile is_space cs \<noteq> [] \<and> numbered_ahead (dropWhile is_space cs)")
      case p: True
      then have "cs \<noteq> []" "is_space (hd cs)" using takeWhile_space_Cons by blast+
      then have a: "\<not> numbered_ahead (c # cs)" by (rule numbered_ahead_Cons_space)
      from p have s: "settle (c # cs) = c # point_gap c @ settle (dropWhile is_space cs)"
        by simp
      have "point_gap c @ settle (dropWhile is_space cs) \<noteq> []"
        "is_space (hd (point_gap c @ settle (dropWhile is_space cs)))"
        by (simp_all add: point_gap_def is_space_blank is_space_NL)
      then have "\<not> numbered_ahead (c # point_gap c @ settle (dropWhile is_space cs))"
        by (rule numbered_ahead_Cons_space)
      with a s show ?thesis by simp
    next
      case False
      with np have s: "settle (c # cs) = c # settle cs" by auto
      show ?thesis
        unfolding s numbered_ahead_digit_Cons [OF True] Cons.IH period_space_shape_settle ..
    qed
  qed
qed

lemma spaced_settled: "spaced s \<Longrightarrow> settled (settle s)"
proof (induction s rule: settle.induct)
  case 1
  then show ?case by simp
next
  case (2 c cs)
  let ?w = "takeWhile is_space cs" and ?r = "dropWhile is_space cs"
  show ?case
  proof (cases "?w \<noteq> [] \<and> numbered_ahead ?r")
    case True
    with "2.prems" have c: "\<not> is_space c" and sr: "spaced ?r" by simp_all
    let ?Y = "settle ?r"
    from True have mY: "numbered_ahead ?Y" by (simp add: numbered_ahead_settle)
    then have "takeWhile is_space ?Y = []"
      using numbered_ahead_not_space [of ?Y] by (intro takeWhile_space_hd) blast
    with point_gap_spaces [of c]
    have "takeWhile is_space (point_gap c @ ?Y) = point_gap c
        \<and> dropWhile is_space (point_gap c @ ?Y) = ?Y"
      by (rule run_then_rest)
    moreover have "settled ?Y" using "2.IH"(1) [OF True sr] .
    ultimately have "settled (c # point_gap c @ ?Y)"
      using c mY point_gap_not_Nil [of c] by simp
    with True show ?thesis by simp
  next
    case no_point: False
    from "2.prems" no_point have ncs: "\<not> numbered_ahead cs" and scs: "spaced cs"
      by (auto split: if_splits)
    show ?thesis
    proof (cases "c = CHR ''.'' \<and> ?w \<noteq> []")
      case True
      with no_point have nr: "\<not> numbered_ahead ?r" by blast
      let ?Y = "settle ?r"
      have tY: "takeWhile is_space ?Y = []"
        using dropWhile_space_hd [of cs] by (intro settle_no_space) blast
      then have dY: "dropWhile is_space ?Y = ?Y"
        using takeWhile_dropWhile_id [of is_space ?Y] by simp
      from nr have mY: "\<not> numbered_ahead ?Y" by (simp add: numbered_ahead_settle)
      from scs nr have "spaced ?r" by (rule spaced_dropWhile)
      then have sY: "settled ?Y" using "2.IH"(2) [OF no_point True] by blast
      have b: "\<not> numbered_ahead (CHR '' '' # ?Y)"
        using numbered_ahead_not_space [of "CHR '' '' # ?Y"] by (auto simp: is_space_blank)
      from tY mY sY have "settled (CHR '' '' # ?Y)"
        using not_space_period by (auto simp: is_space_blank)
      with tY dY mY b have "settled (CHR ''.'' # CHR '' '' # ?Y)"
        by (simp add: is_space_blank)
      with True no_point show ?thesis by simp
    next
      case False
      let ?Z = "settle cs"
      have sZ: "settled ?Z" using "2.IH"(3) [OF no_point False scs] .
      from ncs have mZ: "\<not> numbered_ahead ?Z" by (simp add: numbered_ahead_settle)
      have "settled (c # ?Z)"
      proof (cases "?w = []")
        case True
        then have "cs = [] \<or> \<not> is_space (hd cs)" by (cases cs) (auto split: if_splits)
        then have "takeWhile is_space ?Z = []" by (rule settle_no_space)
        with sZ mZ show ?thesis by simp
      next
        case ne: False
        with no_point have nr: "\<not> numbered_ahead ?r" by blast
        from ne False have np: "c \<noteq> CHR ''.''" by blast
        from nr have Z: "?Z = ?w @ settle ?r" by (rule settle_run)
        have "takeWhile is_space (settle ?r) = []"
          using dropWhile_space_hd [of cs] by (intro settle_no_space) blast
        moreover have "\<forall>y \<in> set ?w. is_space y" by (auto dest: set_takeWhileD)
        ultimately have "takeWhile is_space (?w @ settle ?r) = ?w
            \<and> dropWhile is_space (?w @ settle ?r) = settle ?r"
          by (intro run_then_rest)
        then have "dropWhile is_space ?Z = settle ?r" using Z by simp
        then have "\<not> numbered_ahead (dropWhile is_space ?Z)"
          using nr by (simp add: numbered_ahead_settle)
        with sZ mZ np show ?thesis by simp
      qed
      with False no_point show ?thesis by auto
    qed
  qed
qed

lemma settled_spaced: "settled s \<Longrightarrow> spaced s"
proof (induction s rule: spaced.induct)
  case 1
  then show ?case by simp
next
  case (2 c cs)
  show ?case
  proof (cases "takeWhile is_space cs \<noteq> [] \<and> numbered_ahead (dropWhile is_space cs)")
    case True
    with "2.prems" have "\<not> is_space c" "settled (dropWhile is_space cs)" by simp_all
    with True "2.IH"(1) [OF True] show ?thesis by simp
  next
    case False
    with "2.prems" have "\<not> numbered_ahead cs" "settled cs" by (auto split: if_splits)
    with False "2.IH"(2) [OF False] show ?thesis by auto
  qed
qed

lemma settled_fixed: "settled s \<Longrightarrow> settle s = s"
proof (induction s rule: settle.induct)
  case 1
  then show ?case by simp
next
  case (2 c cs)
  let ?w = "takeWhile is_space cs" and ?r = "dropWhile is_space cs"
  show ?case
  proof (cases "?w \<noteq> [] \<and> numbered_ahead ?r")
    case True
    with "2.prems" have w: "?w = point_gap c" and sr: "settled ?r" by simp_all
    have "settle ?r = ?r" using "2.IH"(1) [OF True sr] .
    with True have "settle (c # cs) = c # ?w @ ?r" by (simp add: w)
    then show ?thesis by simp
  next
    case no_point: False
    from "2.prems" no_point have scs: "settled cs"
      and gap: "c \<noteq> CHR ''.'' \<or> ?w = [] \<or> ?w = '' ''"
      by (auto split: if_splits)
    show ?thesis
    proof (cases "c = CHR ''.'' \<and> ?w \<noteq> []")
      case True
      with gap have w: "?w = '' ''" by blast
      then have cs: "cs = CHR '' '' # ?r"
        using takeWhile_dropWhile_id [of is_space cs] by simp
      have t: "takeWhile is_space ?r = []"
        using dropWhile_space_hd [of cs] by (intro takeWhile_space_hd) blast
      from scs have "settled (CHR '' '' # ?r)" by (subst (asm) cs)
      with t have "settled ?r" by (auto split: if_splits)
      then have "settle ?r = ?r" using "2.IH"(2) [OF no_point True] by blast
      with True no_point have "settle (c # cs) = c # CHR '' '' # ?r" by simp
      then show ?thesis by (subst (2) cs)
    next
      case False
      have "settle cs = cs" using "2.IH"(3) [OF no_point False scs] .
      with False no_point show ?thesis by auto
    qed
  qed
qed

lemma settle_last:
  "s \<noteq> [] \<Longrightarrow> \<not> is_space (last s) \<Longrightarrow> last (settle s) = last s"
proof (induction s rule: settle.induct)
  case 1
  then show ?case by simp
next
  case (2 c cs)
  let ?w = "takeWhile is_space cs" and ?r = "dropWhile is_space cs"
  have rest: "?w \<noteq> [] \<Longrightarrow> ?r \<noteq> [] \<and> last (settle ?r) = last (c # cs)"
    if ih: "?r \<noteq> [] \<Longrightarrow> \<not> is_space (last ?r) \<Longrightarrow> last (settle ?r) = last ?r"
  proof -
    assume w: "?w \<noteq> []"
    then have cs: "cs \<noteq> []" by auto
    have r: "?r \<noteq> []"
    proof
      assume "?r = []"
      then have "\<forall>x \<in> set cs. is_space x" by (simp add: dropWhile_eq_Nil_conv)
      with cs have "is_space (last cs)" by simp
      with cs "2.prems"(2) show False by simp
    qed
    then have l: "last ?r = last cs" by (rule last_dropWhile)
    with cs "2.prems"(2) have "\<not> is_space (last ?r)" by simp
    with r l cs ih show ?thesis by simp
  qed
  show ?case
  proof (cases "?w \<noteq> [] \<and> numbered_ahead ?r")
    case True
    from rest [OF "2.IH"(1) [OF True]] True
    have r: "?r \<noteq> []" and l: "last (settle ?r) = last (c # cs)" by blast+
    from r have "settle ?r \<noteq> []" by simp
    then have "last (c # point_gap c @ settle ?r) = last (settle ?r)"
      by (simp del: settle_Nil_iff)
    with True l show ?thesis by simp
  next
    case no_point: False
    show ?thesis
    proof (cases "c = CHR ''.'' \<and> ?w \<noteq> []")
      case True
      from rest [OF "2.IH"(2) [OF no_point True]] True
      have r: "?r \<noteq> []" and l: "last (settle ?r) = last (c # cs)" by blast+
      from r have "settle ?r \<noteq> []" by simp
      then have "last (CHR ''.'' # CHR '' '' # settle ?r) = last (settle ?r)"
        by (simp del: settle_Nil_iff)
      with True no_point l show ?thesis by simp
    next
      case False
      then have s: "settle (c # cs) = c # settle cs" using no_point by auto
      show ?thesis
      proof (cases "cs = []")
        case True
        with s show ?thesis by simp
      next
        case ne: False
        with "2.prems"(2) have "\<not> is_space (last cs)" by simp
        then have "last (settle cs) = last cs"
          using "2.IH"(3) [OF no_point False ne] by blast
        with ne s show ?thesis by simp
      qed
    qed
  qed
qed

lemma starts_with_space: "p \<noteq> [] \<Longrightarrow> \<not> is_space (hd p) \<Longrightarrow> is_space x \<Longrightarrow>
   \<not> starts_with p (x # t)"
  by (cases p) (auto simp: starts_with_Cons)

lemma contains_skip_spaces:
  "\<forall>x \<in> set g. is_space x \<Longrightarrow> p \<noteq> [] \<Longrightarrow> \<not> is_space (hd p) \<Longrightarrow>
   contains p (g @ t) \<Longrightarrow> contains p t"
proof (induction g)
  case Nil
  then show ?case by simp
next
  case (Cons x g)
  from Cons.prems have "\<not> starts_with p (x # g @ t)"
    by (intro starts_with_space) simp_all
  with Cons.prems(4) have "contains p (g @ t)" by simp
  with Cons show ?thesis by simp
qed

lemma starts_with_settle:
  "\<forall>x \<in> set p. \<not> is_space x \<Longrightarrow> starts_with p (settle s) = starts_with p s"
proof (induction p arbitrary: s)
  case Nil
  then show ?case by simp
next
  case (Cons a p)
  show ?case
  proof (cases s)
    case Nil
    then show ?thesis by (simp add: starts_with_def)
  next
    case s: (Cons c cs)
    let ?w = "takeWhile is_space cs" and ?r = "dropWhile is_space cs"
    have tail: "starts_with p (x # t) = starts_with p cs"
      if "?w \<noteq> []" and "is_space x" for x t
    proof (cases "p = []")
      case True
      then show ?thesis by simp
    next
      case False
      with Cons.prems have "\<not> is_space (hd p)" by (cases p) auto
      with False that(2) have "\<not> starts_with p (x # t)" by (intro starts_with_space)
      moreover from that(1) obtain y ys where cs: "cs = y # ys" and y: "is_space y"
        by (cases cs) (auto split: if_splits)
      from False \<open>\<not> is_space (hd p)\<close> y have "\<not> starts_with p (y # ys)"
        by (rule starts_with_space)
      then have "\<not> starts_with p cs" unfolding cs .
      ultimately show ?thesis by simp
    qed
    show ?thesis
    proof (cases "?w \<noteq> [] \<and> numbered_ahead ?r")
      case True
      then have e: "settle (c # cs) = c # point_gap c @ settle ?r" by simp
      obtain x t where g: "point_gap c @ settle ?r = x # t" and x: "is_space x"
        by (cases "c = CHR ''.''") (auto simp: point_gap_def is_space_blank is_space_NL)
      from True x have "starts_with p (x # t) = starts_with p cs" by (intro tail) simp_all
      then show ?thesis unfolding s e g by (simp add: starts_with_Cons)
    next
      case no_point: False
      show ?thesis
      proof (cases "c = CHR ''.'' \<and> ?w \<noteq> []")
        case True
        with no_point have e: "settle (c # cs) = c # CHR '' '' # settle ?r" by simp
        from True have "starts_with p (CHR '' '' # settle ?r) = starts_with p cs"
          by (intro tail) (simp_all add: is_space_blank)
        then show ?thesis unfolding s e by (simp add: starts_with_Cons)
      next
        case False
        with no_point have e: "settle (c # cs) = c # settle cs" by auto
        from Cons.prems have "starts_with p (settle cs) = starts_with p cs"
          by (intro Cons.IH) simp
        then show ?thesis unfolding s e by (simp add: starts_with_Cons)
      qed
    qed
  qed
qed

lemma contains_settle:
  "p \<noteq> [] \<Longrightarrow> \<forall>x \<in> set p. \<not> is_space x \<Longrightarrow> contains p (settle s) \<Longrightarrow> contains p s"
proof (induction s rule: settle.induct)
  case 1
  then show ?case by simp
next
  case (2 c cs)
  let ?w = "takeWhile is_space cs" and ?r = "dropWhile is_space cs"
  note sw = starts_with_settle [OF "2.prems"(2)]
  from "2.prems"(1,2) have hp: "\<not> is_space (hd p)" by (cases p) auto
  have first: "starts_with p (settle (c # cs)) \<Longrightarrow> contains p (c # cs)"
    by (simp only: sw) simp
  show ?case
  proof (cases "?w \<noteq> [] \<and> numbered_ahead ?r")
    case True
    then have e: "settle (c # cs) = c # point_gap c @ settle ?r" by simp
    from "2.prems"(3) have "starts_with p (settle (c # cs))
        \<or> contains p (point_gap c @ settle ?r)"
      unfolding e by auto
    then show ?thesis
    proof
      assume "starts_with p (settle (c # cs))"
      then show ?thesis by (rule first)
    next
      assume "contains p (point_gap c @ settle ?r)"
      with point_gap_spaces [of c] "2.prems"(1) hp have "contains p (settle ?r)"
        by (rule contains_skip_spaces)
      then have "contains p ?r" using "2.IH"(1) [OF True "2.prems"(1,2)] by blast
      then have "contains p cs" by (rule contains_dropWhile)
      then show ?thesis by simp
    qed
  next
    case no_point: False
    show ?thesis
    proof (cases "c = CHR ''.'' \<and> ?w \<noteq> []")
      case True
      with no_point have e: "settle (c # cs) = c # CHR '' '' # settle ?r" by simp
      from "2.prems"(3) have "starts_with p (settle (c # cs))
          \<or> contains p ('' '' @ settle ?r)"
        unfolding e by auto
      then show ?thesis
      proof
        assume "starts_with p (settle (c # cs))"
        then show ?thesis by (rule first)
      next
        assume "contains p ('' '' @ settle ?r)"
        moreover have "\<forall>x \<in> set '' ''. is_space x" by (simp add: is_space_blank)
        ultimately have "contains p (settle ?r)"
          using "2.prems"(1) hp contains_skip_spaces [of "'' ''" p "settle ?r"] by blast
        then have "contains p ?r" using "2.IH"(2) [OF no_point True "2.prems"(1,2)] by blast
        then have "contains p cs" by (rule contains_dropWhile)
        then show ?thesis by simp
      qed
    next
      case False
      with no_point have e: "settle (c # cs) = c # settle cs" by auto
      from "2.prems"(3) have "starts_with p (settle (c # cs)) \<or> contains p (settle cs)"
        unfolding e by auto
      then show ?thesis
      proof
        assume "starts_with p (settle (c # cs))"
        then show ?thesis by (rule first)
      next
        assume "contains p (settle cs)"
        then have "contains p cs" using "2.IH"(3) [OF no_point False "2.prems"(1,2)] by blast
        then show ?thesis by simp
      qed
    qed
  qed
qed

subsection \<open>Step 5 after the pass\<close>

lemma run_split:
  "r = [] \<or> \<not> P (hd r) \<Longrightarrow>
   takeWhile P (cs @ r) = takeWhile P cs \<and> dropWhile P (cs @ r) = dropWhile P cs @ r"
proof (induction cs)
  case Nil
  then show ?case by (cases r) auto
next
  case (Cons c cs)
  then show ?case by simp
qed

lemma squeeze_newlines_append:
  "r = [] \<or> hd r \<noteq> NL \<Longrightarrow>
   squeeze_newlines (w @ r) = squeeze_newlines w @ squeeze_newlines r"
proof (induction w rule: squeeze_newlines.induct)
  case 1
  then show ?case by simp
next
  case (2 c cs)
  from "2.prems" have rs: "takeWhile (\<lambda>x. x = NL) (cs @ r) = takeWhile (\<lambda>x. x = NL) cs
      \<and> dropWhile (\<lambda>x. x = NL) (cs @ r) = dropWhile (\<lambda>x. x = NL) cs @ r"
    by (intro run_split) simp
  show ?case
  proof (cases "c = NL \<and> 2 \<le> length (takeWhile (\<lambda>x. x = NL) cs)")
    case True
    with rs "2.IH"(1) [OF True "2.prems"] show ?thesis by simp
  next
    case False
    with rs "2.IH"(2) [OF False "2.prems"] show ?thesis by auto
  qed
qed

lemma squeeze_newlines_set: "x \<in> set (squeeze_newlines s) \<Longrightarrow> x \<in> set s"
proof (induction s rule: squeeze_newlines.induct)
  case 1
  then show ?case by simp
next
  case (2 c cs)
  show ?case
  proof (cases "c = NL \<and> 2 \<le> length (takeWhile (\<lambda>x. x = NL) cs)")
    case True
    with "2.prems" have "x = NL \<or> x \<in> set (squeeze_newlines (dropWhile (\<lambda>x. x = NL) cs))"
      by auto
    then show ?thesis
    proof
      assume "x = NL"
      with True show ?thesis by simp
    next
      assume "x \<in> set (squeeze_newlines (dropWhile (\<lambda>x. x = NL) cs))"
      then have "x \<in> set (dropWhile (\<lambda>x. x = NL) cs)" using "2.IH"(1) [OF True] by blast
      then have "x \<in> set cs" by (rule set_dropWhileD)
      then show ?thesis by simp
    qed
  next
    case False
    with "2.prems" have "x = c \<or> x \<in> set (squeeze_newlines cs)" by auto
    with "2.IH"(2) [OF False] show ?thesis by auto
  qed
qed

lemma squeeze_newlines_run_spaces:
  "takeWhile is_space (squeeze_newlines cs) = squeeze_newlines (takeWhile is_space cs)
   \<and> dropWhile is_space (squeeze_newlines cs) = squeeze_newlines (dropWhile is_space cs)"
proof -
  let ?w = "takeWhile is_space cs" and ?r = "dropWhile is_space cs"
  have r: "?r = [] \<or> \<not> is_space (hd ?r)" by (rule dropWhile_space_hd)
  then have "?r = [] \<or> hd ?r \<noteq> NL" using is_space_NL by auto
  then have "squeeze_newlines (?w @ ?r) = squeeze_newlines ?w @ squeeze_newlines ?r"
    by (rule squeeze_newlines_append)
  then have e: "squeeze_newlines cs = squeeze_newlines ?w @ squeeze_newlines ?r" by simp
  have "\<forall>x \<in> set (squeeze_newlines ?w). is_space x"
    by (auto dest: squeeze_newlines_set set_takeWhileD)
  moreover from r have "takeWhile is_space ?r = []" by (rule takeWhile_space_hd)
  then have "takeWhile is_space (squeeze_newlines ?r) = []" by (rule takeWhile_space_squeeze)
  ultimately have "takeWhile is_space (squeeze_newlines ?w @ squeeze_newlines ?r)
        = squeeze_newlines ?w
      \<and> dropWhile is_space (squeeze_newlines ?w @ squeeze_newlines ?r) = squeeze_newlines ?r"
    by (rule run_then_rest)
  then show ?thesis by (simp only: e)
qed

lemma squeeze_newlines_two:
  "2 \<le> length (takeWhile (\<lambda>x. x = NL) cs) \<Longrightarrow>
   squeeze_newlines cs = NL # NL # squeeze_newlines (dropWhile (\<lambda>x. x = NL) cs)"
proof -
  assume a: "2 \<le> length (takeWhile (\<lambda>x. x = NL) cs)"
  then obtain ds where cs: "cs = NL # ds" by (cases cs) (auto split: if_splits)
  with a have b: "1 \<le> length (takeWhile (\<lambda>x. x = NL) ds)" by simp
  show ?thesis
  proof (cases "2 \<le> length (takeWhile (\<lambda>x. x = NL) ds)")
    case True
    with cs show ?thesis by simp
  next
    case False
    from b obtain es where ds: "ds = NL # es" by (cases ds) (auto split: if_splits)
    with False have "takeWhile (\<lambda>x. x = NL) es = []" by (cases es) (auto split: if_splits)
    then have e: "length (takeWhile (\<lambda>x. x = NL) es) < 2"
      and d: "dropWhile (\<lambda>x. x = NL) es = es"
      using takeWhile_dropWhile_id [of "\<lambda>x. x = NL" es] by simp_all
    from False cs ds e d show ?thesis by simp
  qed
qed

lemma squeeze_newlines_gap: "squeeze_newlines (point_gap c) = point_gap c"
  by (simp add: point_gap_def)

lemma settled_squeeze: "settled s \<Longrightarrow> settled (squeeze_newlines s)"
proof (induction s rule: settled.induct)
  case 1
  then show ?case by simp
next
  case (2 c cs)
  let ?w = "takeWhile is_space cs" and ?r = "dropWhile is_space cs"
  let ?q = "squeeze_newlines cs"
  note run = squeeze_newlines_run_spaces [of cs]
  have m: "numbered_ahead (squeeze_newlines ?r) = numbered_ahead ?r"
    by (rule numbered_ahead_squeeze_newlines)
  show ?case
  proof (cases "?w \<noteq> [] \<and> numbered_ahead ?r")
    case True
    with "2.prems" have c: "\<not> is_space c" and w: "?w = point_gap c" and sr: "settled ?r"
      by simp_all
    from c have "c \<noteq> NL" using is_space_NL by auto
    then have e: "squeeze_newlines (c # cs) = c # ?q" by simp
    from run w have tw: "takeWhile is_space ?q = point_gap c"
      by (simp add: squeeze_newlines_gap)
    from run have dw: "dropWhile is_space ?q = squeeze_newlines ?r" by simp
    have "settled (squeeze_newlines ?r)" using "2.IH"(1) [OF True sr] .
    with True c tw dw m have "settled (c # ?q)" by (simp add: point_gap_not_Nil)
    then show ?thesis by (simp only: e)
  next
    case no_point: False
    from "2.prems" no_point have ncs: "\<not> numbered_ahead cs" and scs: "settled cs"
      and gap: "c \<noteq> CHR ''.'' \<or> ?w = [] \<or> ?w = '' ''"
      by (auto split: if_splits)
    have sq: "settled ?q" using "2.IH"(2) [OF no_point scs] .
    show ?thesis
    proof (cases "c = NL \<and> 2 \<le> length (takeWhile (\<lambda>x. x = NL) cs)")
      case True
      then have "squeeze_newlines (c # cs) = ?q"
        using squeeze_newlines_two [of cs] by simp
      with sq show ?thesis by simp
    next
      case False
      then have e: "squeeze_newlines (c # cs) = c # ?q" by auto
      from run have tw: "takeWhile is_space ?q = squeeze_newlines ?w"
        and dw: "dropWhile is_space ?q = squeeze_newlines ?r" by simp_all
      have np: "\<not> (takeWhile is_space ?q \<noteq> [] \<and> numbered_ahead (dropWhile is_space ?q))"
        using no_point unfolding tw dw m by simp
      have nq: "\<not> numbered_ahead ?q"
        using ncs by (simp add: numbered_ahead_squeeze_newlines)
      have g: "c \<noteq> CHR ''.'' \<or> takeWhile is_space ?q = [] \<or> takeWhile is_space ?q = '' ''"
        using gap unfolding tw by auto
      from np nq g sq have "settled (c # ?q)" by auto
      then show ?thesis by (simp only: e)
    qed
  qed
qed

lemma spaced_steps_stripped:
  assumes "strip s = s"
  shows "strip (squeeze_newlines (settle s)) = squeeze_newlines (settle s)"
proof (cases "s = []")
  case True
  then show ?thesis by (simp add: strip_def lstrip_def rstrip_def)
next
  case False
  with assms have h: "\<not> is_space (hd s)" and l: "\<not> is_space (last s)"
    using strip_hd [of s] strip_last [of s] by simp_all
  let ?t = "settle s"
  from False have t: "?t \<noteq> []" by simp
  from h have ht: "\<not> is_space (hd ?t)" by (simp add: settle_hd)
  from False l have lt: "\<not> is_space (last ?t)" by (simp add: settle_last)
  then have "last ?t \<noteq> NL" using is_space_NL by auto
  with t have "last (squeeze_newlines ?t) = last ?t" by (rule squeeze_newlines_last)
  with ht lt have "\<not> is_space (hd (squeeze_newlines ?t)) \<and> \<not> is_space (last (squeeze_newlines ?t))"
    by (simp add: squeeze_newlines_hd)
  then show ?thesis by (intro strip_id) blast
qed

lemma label_no_space: "\<forall>x \<in> set ''Breakdown:''. \<not> is_space x"
  by (simp add: is_space_def space_chars_def)

lemma fmt_money_blocks_spaced:
  assumes "\<not> contains ''Breakdown:'' (strip txt)" and "spaced (strip txt)"
  shows "fmt_money_blocks txt = squeeze_newlines (settle (strip txt))"
proof -
  let ?s = "strip txt"
  from assms(2) have b: "space_after_period (break_before_numbers True False ?s) = settle ?s"
    by (intro steps_settle) simp_all
  from assms(1) have c: "\<not> contains ''Breakdown:'' (settle ?s)"
    using contains_settle [OF label_chars(1) label_no_space, of ?s] by blast
  then have r: "py_replace ''3. Breakdown:'' (''3. Breakdown:'' @ [NL]) (settle ?s) = settle ?s"
    by (rule replace_label_absent)
  from c have u: "bullets_after_breakdown (settle ?s) = settle ?s"
    by (rule bullets_after_breakdown_absent)
  show ?thesis
    unfolding fmt_money_blocks_def Let_def b r u ..
qed

text \<open>
  C1, as the claim states it, fails. On a reply with the breakdown label each
  application adds a newline after the label, and each application splits the
  bullets again. A numbered point that directly follows a character other than
  whitespace, which includes every digit but the first of a number of several digits,
  gets a second newline on the second application.
\<close>

theorem fmt_money_blocks_not_idempotent_counterexample:
  "fmt_money_blocks ''3. Breakdown: Total bill 500.00''
     = ''3. Breakdown:'' @ [NL] @ '' Total bill 500.00''
   \<and> fmt_money_blocks (fmt_money_blocks ''3. Breakdown: Total bill 500.00'')
     = ''3. Breakdown:'' @ [NL, NL] @ '' Total bill 500.00''
   \<and> fmt_money_blocks (fmt_money_blocks ''3. Breakdown: Total bill 500.00'')
     \<noteq> fmt_money_blocks ''3. Breakdown: Total bill 500.00''
   \<and> fmt_money_blocks (fmt_money_blocks ''Breakdown: a - b'')
     \<noteq> fmt_money_blocks ''Breakdown: a - b''
   \<and> fmt_money_blocks (fmt_money_blocks ''Pays:1. all'') \<noteq> fmt_money_blocks ''Pays:1. all''
   \<and> fmt_money_blocks (fmt_money_blocks ''see 12. all'') \<noteq> fmt_money_blocks ''see 12. all''"
  by code_simp

text \<open>
  C1, amended. The formatter is idempotent on every text that, leading and trailing
  whitespace apart, does not contain the label \<open>Breakdown:\<close> and in which every
  numbered point (digits, a period, a whitespace character) that starts after the
  first character directly follows a whitespace character: applying the formatter to
  its own output yields the same output.
\<close>

theorem fmt_money_blocks_idempotent_spaced:
  assumes "\<not> contains ''Breakdown:'' (strip txt)"
    and "points_after_space None (strip txt)"
  shows "fmt_money_blocks (fmt_money_blocks txt) = fmt_money_blocks txt"
proof -
  let ?s = "strip txt"
  let ?y = "squeeze_newlines (settle ?s)"
  have st0: "?s = [] \<or> \<not> is_space (hd ?s) \<or> \<not> numbered_ahead (dropWhile is_space ?s)"
    using strip_hd [of "txt"] by blast
  with assms(2) have sp: "spaced ?s" by (rule points_after_space_spaced)
  have f: "fmt_money_blocks txt = ?y"
    using assms(1) sp by (rule fmt_money_blocks_spaced)
  have st: "strip ?y = ?y"
    by (rule spaced_steps_stripped) (rule strip_strip)
  have "\<not> contains ''Breakdown:'' (settle ?s)"
    using assms(1) contains_settle [OF label_chars(1) label_no_space, of ?s] by blast
  then have c: "\<not> contains ''Breakdown:'' ?y"
    using contains_squeeze_newlines [OF label_chars(1,3), of "settle ?s"] by blast
  have sd: "settled ?y"
    using sp by (intro settled_squeeze spaced_settled)
  from c have c': "\<not> contains ''Breakdown:'' (strip ?y)" unfolding st .
  from sd have s': "spaced (strip ?y)" unfolding st by (rule settled_spaced)
  have "fmt_money_blocks ?y = squeeze_newlines (settle (strip ?y))"
    using c' s' by (rule fmt_money_blocks_spaced)
  also have "\<dots> = squeeze_newlines (settle ?y)" by (simp only: st)
  also have "settle ?y = ?y" using sd by (rule settled_fixed)
  also have "squeeze_newlines ?y = ?y"
    by (intro newlines_squeezed_fixed squeeze_newlines_squeezed)
  finally have "fmt_money_blocks ?y = ?y" .
  with f show ?thesis by simp
qed

theorem fmt_money_blocks_idempotent_spaced_witness:
  "\<not> contains ''Breakdown:'' (strip reply_points)
   \<and> points_after_space None (strip reply_points)
   \<and> fmt_money_blocks reply_points
     = ''Summary:'' @ [NL, NL] @ ''1. Eligible room: Single'' @ [NL, NL]
       @ ''2. Status: within cap. 3. Extra: 0.00'' @ [NL, NL] @ ''Thanks.''
   \<and> fmt_money_blocks (fmt_money_blocks reply_points) = fmt_money_blocks reply_points
   \<and> reply_points \<noteq> fmt_money_blocks reply_points"
proof -
  have a: "\<not> contains ''Breakdown:'' (strip reply_points)"
    and b: "points_after_space None (strip reply_points)"
    by code_simp+
  have c: "fmt_money_blocks reply_points
     = ''Summary:'' @ [NL, NL] @ ''1. Eligible room: Single'' @ [NL, NL]
       @ ''2. Status: within cap. 3. Extra: 0.00'' @ [NL, NL] @ ''Thanks.''"
    by code_simp
  have d: "reply_points \<noteq> fmt_money_blocks reply_points"
    by code_simp
  from fmt_money_blocks_idempotent_spaced [OF a b] a b c d show ?thesis by blast
qed

end
